theory Spec2Isabelle
  imports Main "HOL-Library.Sublist"
begin

section \<open>Data model\<close>

text \<open>
  The lifecycle states and keep-alive states are imported by the source from
  \<^verbatim>\<open>./constants\<close>, which is not among the source files; the enumerations
  are taken from the data model of the specification.
\<close>

datatype appStates = CREATED | LOADING | MOUNTED | UNMOUNT

datatype keepAliveStates = NONE | KEEP_ALIVE_HIDDEN | KEEP_ALIVE_SHOWN

type_synonym cid = nat

type_synonym pid = nat

text \<open>
  The part of \<^verbatim>\<open>AppInterface\<close> that the source reads: \<^verbatim>\<open>getAppState()\<close>,
  \<^verbatim>\<open>isPrefetch\<close>, \<^verbatim>\<open>getKeepAliveState()\<close> and \<^verbatim>\<open>container\<close>
  (\<open>None\<close> is \<^verbatim>\<open>null\<close>). The container is held by identity: the host owns the element.
\<close>

record app =
  appState :: appStates
  isPrefetch :: bool
  keepAliveState :: keepAliveStates
  container :: "cid option"

subsection \<open>The Registry: a JavaScript \<^verbatim>\<open>Map\<close>\<close>

text \<open>
  \<^verbatim>\<open>appInstanceMap\<close> is a \<^verbatim>\<open>Map<string, AppInterface>\<close>. A JavaScript Map
  iterates in insertion order: \<^verbatim>\<open>set\<close> on a key already present replaces the value
  in place, \<^verbatim>\<open>set\<close> on a new key appends, \<^verbatim>\<open>delete\<close> removes the entry.
  It is an association list with distinct keys.
\<close>

type_synonym 'v jsmap = "(string \<times> 'v) list"

fun map_get :: "'v jsmap \<Rightarrow> string \<Rightarrow> 'v option" where
  "map_get [] k = None"
| "map_get ((k', v) # m) k = (if k' = k then Some v else map_get m k)"

fun map_set :: "'v jsmap \<Rightarrow> string \<Rightarrow> 'v \<Rightarrow> 'v jsmap" where
  "map_set [] k v = [(k, v)]"
| "map_set ((k', v') # m) k v = (if k' = k then (k, v) # m else (k', v') # map_set m k v)"

fun map_delete :: "'v jsmap \<Rightarrow> string \<Rightarrow> 'v jsmap" where
  "map_delete [] k = []"
| "map_delete ((k', v') # m) k = (if k' = k then map_delete m k else (k', v') # map_delete m k)"

definition map_keys :: "'v jsmap \<Rightarrow> string list" where
  "map_keys m = map fst m"

datatype 'v mapop = Set string 'v | Delete string

fun map_apply :: "'v jsmap \<Rightarrow> 'v mapop \<Rightarrow> 'v jsmap" where
  "map_apply m (Set k v) = map_set m k v"
| "map_apply m (Delete k) = map_delete m k"

definition map_build :: "'v mapop list \<Rightarrow> 'v jsmap" where
  "map_build ops = foldl map_apply [] ops"

section \<open>Listing applications\<close>

text \<open>
  \<^verbatim>\<open>getActiveApps (excludeHiddenApp?: boolean)\<close>: the optional parameter is
  \<open>None\<close> when omitted; \<^verbatim>\<open>!excludeHiddenApp\<close> holds when it is omitted or false.
  \<^verbatim>\<open>forEach\<close> visits the entries in insertion order and \<^verbatim>\<open>push\<close> appends.
\<close>

definition falsy :: "bool option \<Rightarrow> bool" where
  "falsy b = (case b of None \<Rightarrow> True | Some v \<Rightarrow> \<not> v)"

definition activeCond :: "bool option \<Rightarrow> app \<Rightarrow> bool" where
  "activeCond excludeHiddenApp a =
     (UNMOUNT \<noteq> appState a \<and> \<not> isPrefetch a \<and>
      (falsy excludeHiddenApp \<or> KEEP_ALIVE_HIDDEN \<noteq> keepAliveState a))"

definition getActiveApps :: "app jsmap \<Rightarrow> bool option \<Rightarrow> string list" where
  "getActiveApps registry excludeHiddenApp =
     foldl (\<lambda>activeApps (appName, a).
              if activeCond excludeHiddenApp a then activeApps @ [appName] else activeApps)
           [] registry"

definition getAllApps :: "app jsmap \<Rightarrow> string list" where
  "getAllApps registry = map_keys registry"

text \<open>
  The specification's wording of the two listings, for comparison with the code:
  an application is active when its lifecycle state is not \<open>UNMOUNT\<close> and it is not a
  prefetch, optionally excluding the hidden keep-alive ones; the insertion order of a
  history of Registry operations lists a name at the position of its first insertion
  since it was last deleted.
\<close>

definition spec_active :: "bool \<Rightarrow> app \<Rightarrow> bool" where
  "spec_active excludeHidden a =
     (appState a \<noteq> UNMOUNT \<and> isPrefetch a = False \<and>
      (if excludeHidden then keepAliveState a \<noteq> KEEP_ALIVE_HIDDEN else True))"

fun insertion_order :: "string list \<Rightarrow> 'v mapop list \<Rightarrow> string list" where
  "insertion_order ns [] = ns"
| "insertion_order ns (Set k v # ops) =
     insertion_order (if k \<in> set ns then ns else ns @ [k]) ops"
| "insertion_order ns (Delete k # ops) = insertion_order (removeAll k ns) ops"

section \<open>The host page\<close>

text \<open>
  \<^verbatim>\<open>unmountApp\<close> works on the Registry, on the container elements of the host page
  and on the promise it returns. The state below holds these, together with a
  chronological trace of every observable operation, so that properties of order
  (what happens before what) are statements about the trace.

  The two event handlers of one call are closures over that call's \<^verbatim>\<open>resolve\<close>
  and \<^verbatim>\<open>container\<close>; a handler is identified by the promise and the element it
  closes over.
\<close>

datatype handler = UnmountHandler pid cid | AfterhiddenHandler pid cid

record element =
  attrs :: "string \<Rightarrow> string option"
  listeners :: "(string \<times> handler) list"
  attached :: bool

datatype pstate = Pending | Fulfilled | Rejected

datatype obs =
    Call pid string
  | LogWarn string
  | LogError string
  | ActionsForCompletelyDestroy string
  | AppUnmount string bool
  | AddEventListener cid string handler
  | RemoveEventListener cid string handler
  | SetAttribute cid string string
  | RemoveAttribute cid string
  | RemoveChild cid
  | DispatchEvent cid string
  | Resolve pid
  | Reject pid
  | InitGlobalEnv
  | PreFetch
  | GetGlobalAssets
  | DefineElement string

record world =
  appInstanceMap :: "app jsmap"
  elements :: "cid \<Rightarrow> element"
  sandboxes :: "string \<Rightarrow> bool"
  channels :: "string \<Rightarrow> bool"
  promises :: "pid \<Rightarrow> pstate option"
  nextPid :: pid
  trace :: "obs list"

text \<open>
  Two things that the source takes from modules that are not among the source files
  are parameters: \<^verbatim>\<open>formatAppName\<close> (from \<^verbatim>\<open>./libs/utils\<close>), and the events
  that the custom element emits synchronously while it is being removed from its
  parent (its disconnected callback runs inside \<^verbatim>\<open>removeChild\<close>; it may emit
  nothing there and finish its teardown later). What the element does to the Registry
  when it is disconnected belongs to the element and is not part of this model.
\<close>

record env =
  formatAppName :: "string \<Rightarrow> string"
  emitsOnRemove :: "cid \<Rightarrow> string list"

definition log :: "obs \<Rightarrow> world \<Rightarrow> world" where
  "log x w = w\<lparr>trace := trace w @ [x]\<rparr>"

definition upd_element :: "cid \<Rightarrow> (element \<Rightarrow> element) \<Rightarrow> world \<Rightarrow> world" where
  "upd_element c f w = w\<lparr>elements := (elements w)(c := f (elements w c))\<rparr>"

definition hasAttribute :: "world \<Rightarrow> cid \<Rightarrow> string \<Rightarrow> bool" where
  "hasAttribute w c n = (attrs (elements w c) n \<noteq> None)"

definition getAttribute :: "world \<Rightarrow> cid \<Rightarrow> string \<Rightarrow> string option" where
  "getAttribute w c n = attrs (elements w c) n"

definition setAttribute :: "cid \<Rightarrow> string \<Rightarrow> string \<Rightarrow> world \<Rightarrow> world" where
  "setAttribute c n v w =
     log (SetAttribute c n v) (upd_element c (\<lambda>e. e\<lparr>attrs := (attrs e)(n := Some v)\<rparr>) w)"

definition removeAttribute :: "cid \<Rightarrow> string \<Rightarrow> world \<Rightarrow> world" where
  "removeAttribute c n w =
     log (RemoveAttribute c n) (upd_element c (\<lambda>e. e\<lparr>attrs := (attrs e)(n := None)\<rparr>) w)"

text \<open>
  \<^verbatim>\<open>addEventListener\<close> ignores a listener that is already registered for the
  event type; \<^verbatim>\<open>removeEventListener\<close> removes it.
\<close>

definition addEventListener :: "cid \<Rightarrow> string \<Rightarrow> handler \<Rightarrow> world \<Rightarrow> world" where
  "addEventListener c t h w =
     log (AddEventListener c t h)
       (upd_element c (\<lambda>e. e\<lparr>listeners :=
          (if (t, h) \<in> set (listeners e) then listeners e else listeners e @ [(t, h)])\<rparr>) w)"

definition removeEventListener :: "cid \<Rightarrow> string \<Rightarrow> handler \<Rightarrow> world \<Rightarrow> world" where
  "removeEventListener c t h w =
     log (RemoveEventListener c t h)
       (upd_element c (\<lambda>e. e\<lparr>listeners := removeAll (t, h) (listeners e)\<rparr>) w)"

text \<open>
  The \<^verbatim>\<open>resolve\<close> function of a promise settles it the first time it is called
  and does nothing afterwards; every call is recorded. A promise whose executor
  throws is rejected.
\<close>

definition resolve :: "pid \<Rightarrow> world \<Rightarrow> world" where
  "resolve p w =
     log (Resolve p)
       (if promises w p = Some Pending then w\<lparr>promises := (promises w)(p := Some Fulfilled)\<rparr>
        else w)"

definition reject :: "pid \<Rightarrow> world \<Rightarrow> world" where
  "reject p w =
     log (Reject p)
       (if promises w p = Some Pending then w\<lparr>promises := (promises w)(p := Some Rejected)\<rparr>
        else w)"

text \<open>
  \<^verbatim>\<open>unmountHandler\<close> and \<^verbatim>\<open>afterhiddenHandler\<close> (lines 68-78): each removes
  both listeners from the container and resolves.
\<close>

fun run_handler :: "handler \<Rightarrow> world \<Rightarrow> world" where
  "run_handler (UnmountHandler p c) w =
     resolve p
       (removeEventListener c ''afterhidden'' (AfterhiddenHandler p c)
         (removeEventListener c ''unmount'' (UnmountHandler p c) w))"
| "run_handler (AfterhiddenHandler p c) w =
     resolve p
       (removeEventListener c ''afterhidden'' (AfterhiddenHandler p c)
         (removeEventListener c ''unmount'' (UnmountHandler p c) w))"

text \<open>
  Dispatching an event of type \<open>t\<close> on an element runs the listeners registered for
  \<open>t\<close> when the dispatch starts, in registration order, skipping a listener that an
  earlier one has removed in the meantime.
\<close>

definition invoke :: "cid \<Rightarrow> string \<Rightarrow> world \<Rightarrow> handler \<Rightarrow> world" where
  "invoke c t w h = (if (t, h) \<in> set (listeners (elements w c)) then run_handler h w else w)"

definition dispatchEvent :: "cid \<Rightarrow> string \<Rightarrow> world \<Rightarrow> world" where
  "dispatchEvent c t w =
     foldl (invoke c t) (log (DispatchEvent c t) w)
       (map snd (filter (\<lambda>l. fst l = t) (listeners (elements w c))))"

text \<open>
  \<^verbatim>\<open>container.parentNode!.removeChild(container)\<close>: when the container has no
  parent, \<^verbatim>\<open>parentNode\<close> is \<^verbatim>\<open>null\<close> and the call throws a TypeError
  (\<open>None\<close>). Otherwise the element is detached and emits what it emits synchronously.
\<close>

fun emit_all :: "cid \<Rightarrow> string list \<Rightarrow> world \<Rightarrow> world" where
  "emit_all c [] w = w"
| "emit_all c (t # ts) w = emit_all c ts (dispatchEvent c t w)"

definition detach :: "cid \<Rightarrow> world \<Rightarrow> world" where
  "detach c w = log (RemoveChild c) (upd_element c (\<lambda>e. e\<lparr>attached := False\<rparr>) w)"

definition removeChild :: "env \<Rightarrow> cid \<Rightarrow> world \<Rightarrow> world option" where
  "removeChild E c w =
     (if attached (elements w c) then Some (emit_all c (emitsOnRemove E c) (detach c w))
      else None)"

definition logWarn :: "string \<Rightarrow> world \<Rightarrow> world" where
  "logWarn msg w = log (LogWarn msg) w"

subsection \<open>The application's own methods\<close>

text \<open>
  The Sandbox Contexts and the channels of the communication bus are kept per
  application name, beside the Registry, so that their release can be observed after
  the Registry entry is gone.
\<close>

definition release :: "string \<Rightarrow> world \<Rightarrow> world" where
  "release k w =
     w\<lparr>appInstanceMap := map_delete (appInstanceMap w) k,
       sandboxes := (sandboxes w)(k := False),
       channels := (channels w)(k := False)\<rparr>"

text \<open>
  Modelled from the spec: \<^verbatim>\<open>AppInterface.actionsForCompletelyDestroy\<close> is
  implemented in \<^verbatim>\<open>./create_app\<close>, which is not among the source files. The
  specification's decision table says of it: "fully destroy (release Sandbox Context,
  Bus, Registry entry)".
\<close>

definition actionsForCompletelyDestroy :: "string \<Rightarrow> world \<Rightarrow> world" where
  "actionsForCompletelyDestroy k w = release k (log (ActionsForCompletelyDestroy k) w)"

definition map_modify :: "'v jsmap \<Rightarrow> string \<Rightarrow> ('v \<Rightarrow> 'v) \<Rightarrow> 'v jsmap" where
  "map_modify m k f = (case map_get m k of None \<Rightarrow> m | Some v \<Rightarrow> map_set m k (f v))"

text \<open>
  Modelled from the spec: \<^verbatim>\<open>AppInterface.unmount(destroy, unmountcb)\<close> is
  implemented in \<^verbatim>\<open>./create_app\<close>, which is not among the source files. The
  specification says: with \<open>destroy\<close>, "full resource release and Registry removal";
  without it, "container removed, keep-alive marker cleared, Registry entry retained,
  Sandbox Context retained", the lifecycle state becoming \<open>UNMOUNT\<close>; the unmount
  "emits \<open>unmount\<close> ... lifecycle events to the container" and the completion callback
  runs after that event.
\<close>

definition app_unmount :: "string \<Rightarrow> bool \<Rightarrow> pid \<Rightarrow> world \<Rightarrow> world" where
  "app_unmount k destroyFlag unmountcb w =
     (let w1 = log (AppUnmount k destroyFlag) w;
          c = (case map_get (appInstanceMap w) k of None \<Rightarrow> None | Some a \<Rightarrow> container a);
          w2 = (if destroyFlag then release k w1
                else w1\<lparr>appInstanceMap :=
                       map_modify (appInstanceMap w1) k
                         (\<lambda>a. a\<lparr>appState := UNMOUNT, keepAliveState := NONE,
                                container := None\<rparr>)\<rparr>);
          w3 = (case c of None \<Rightarrow> w2 | Some c' \<Rightarrow> dispatchEvent c' ''unmount'' w2)
      in resolve unmountcb w3)"

section \<open>unmountApp\<close>

record unmountAppParams =
  destroy :: "bool option"
  clearAliveState :: "bool option"

text \<open>\<^verbatim>\<open>options?.destroy\<close> and \<^verbatim>\<open>options?.clearAliveState\<close> as conditions.\<close>

definition optDestroy :: "unmountAppParams option \<Rightarrow> bool" where
  "optDestroy options = (case options of None \<Rightarrow> False | Some ps \<Rightarrow> destroy ps = Some True)"

definition optClearAliveState :: "unmountAppParams option \<Rightarrow> bool" where
  "optClearAliveState options =
     (case options of None \<Rightarrow> False | Some ps \<Rightarrow> clearAliveState ps = Some True)"

text \<open>
  The executor either runs to its end or throws; the state reached is kept in both
  cases, since what was done before the throw stays done.
\<close>

datatype completion = is_Normal: Normal (final: world) | Throw (final: world)

text \<open>
  Lines 67-103, the branch of a mounted and visible application, in the four parts the
  source has: attaching the two handlers (lines 68-81), the destroy branch (84-93),
  the clear-alive-state branch (95-100) and the plain removal (102). The container is
  \<^verbatim>\<open>getRootContainer(app.container!)\<close>; the model's \<open>container\<close> field holds the
  root element.
\<close>

definition attachHandlers :: "pid \<Rightarrow> cid \<Rightarrow> world \<Rightarrow> world" where
  "attachHandlers p c w =
     (let unmountHandler = UnmountHandler p c;
          afterhiddenHandler = AfterhiddenHandler p c;
          w1 = addEventListener c ''unmount'' unmountHandler w
      in addEventListener c ''afterhidden'' afterhiddenHandler w1)"

definition restoreAttribute :: "cid \<Rightarrow> string \<Rightarrow> string option \<Rightarrow> world \<Rightarrow> world" where
  "restoreAttribute c n attrValue w =
     (case attrValue of None \<Rightarrow> w | Some v \<Rightarrow> setAttribute c n v w)"

definition destroyBranch :: "env \<Rightarrow> cid \<Rightarrow> world \<Rightarrow> completion" where
  "destroyBranch E c w =
     (let destroyAttrValue =
            (if hasAttribute w c ''destroy'' then getAttribute w c ''destroy'' else None);
          destoryAttrValue =
            (if hasAttribute w c ''destory'' then getAttribute w c ''destory'' else None);
          w1 = setAttribute c ''destroy'' ''true'' w
      in case removeChild E c w1 of
           None \<Rightarrow> Throw w1
         | Some w2 \<Rightarrow>
             Normal (restoreAttribute c ''destory'' destoryAttrValue
                      (restoreAttribute c ''destroy'' destroyAttrValue
                        (removeAttribute c ''destroy'' w2))))"

definition clearAliveBranch :: "env \<Rightarrow> cid \<Rightarrow> world \<Rightarrow> completion" where
  "clearAliveBranch E c w =
     (let keepAliveAttrValue = getAttribute w c ''keep-alive'';
          w1 = removeAttribute c ''keep-alive'' w
      in case removeChild E c w1 of
           None \<Rightarrow> Throw w1
         | Some w2 \<Rightarrow> Normal (restoreAttribute c ''keep-alive'' keepAliveAttrValue w2))"

definition detachBranch :: "env \<Rightarrow> cid \<Rightarrow> world \<Rightarrow> completion" where
  "detachBranch E c w = (case removeChild E c w of None \<Rightarrow> Throw w | Some w1 \<Rightarrow> Normal w1)"

definition unmountVisible ::
  "env \<Rightarrow> pid \<Rightarrow> cid \<Rightarrow> unmountAppParams option \<Rightarrow> world \<Rightarrow> completion" where
  "unmountVisible E p c options w =
     (let w1 = attachHandlers p c w
      in if optDestroy options then destroyBranch E c w1
         else if optClearAliveState options \<and> hasAttribute w1 c ''keep-alive''
         then clearAliveBranch E c w1
         else detachBranch E c w1)"

text \<open>
  The body of the promise executor (lines 52-108). \<open>k\<close> is the formatted name, under
  which the application was looked up. A mounted application without a container
  makes \<^verbatim>\<open>container.addEventListener\<close> throw.
\<close>

definition executor ::
  "env \<Rightarrow> pid \<Rightarrow> string \<Rightarrow> string \<Rightarrow> unmountAppParams option \<Rightarrow> world \<Rightarrow> completion" where
  "executor E p k appName options w =
     (case map_get (appInstanceMap w) k of
        Some a \<Rightarrow>
          if appState a = UNMOUNT \<or> isPrefetch a then
            Normal (resolve p (if optDestroy options then actionsForCompletelyDestroy k w else w))
          else if keepAliveState a = KEEP_ALIVE_HIDDEN then
            (if optDestroy options then Normal (app_unmount k True p w)
             else if optClearAliveState options then Normal (app_unmount k False p w)
             else Normal (resolve p w))
          else
            (case container a of
               None \<Rightarrow> Throw w
             | Some c \<Rightarrow> unmountVisible E p c options w)
      | None \<Rightarrow> Normal (resolve p (logWarn (''app '' @ appName @ '' does not exist'') w)))"

fun settle :: "pid \<Rightarrow> completion \<Rightarrow> world" where
  "settle p (Normal w) = w"
| "settle p (Throw w) = reject p w"

text \<open>
  \<^verbatim>\<open>unmountApp\<close> creates the promise, runs the executor at once and returns the
  promise.
\<close>

definition unmountApp ::
  "env \<Rightarrow> string \<Rightarrow> unmountAppParams option \<Rightarrow> world \<Rightarrow> pid \<times> world" where
  "unmountApp E appName options w =
     (let p = nextPid w;
          w0 = log (Call p appName)
                 (w\<lparr>promises := (promises w)(p := Some Pending), nextPid := Suc p\<rparr>)
      in (p, settle p (executor E p (formatAppName E appName) appName options w0)))"

section \<open>Auxiliary notions and example states\<close>

text \<open>
  The operations recorded between two states, and those among them that write an
  attribute.
\<close>

definition since :: "world \<Rightarrow> world \<Rightarrow> obs list" where
  "since w w' = drop (length (trace w)) (trace w')"

fun is_attr_op :: "obs \<Rightarrow> bool" where
  "is_attr_op (SetAttribute c n v) = True"
| "is_attr_op (RemoveAttribute c n) = True"
| "is_attr_op x = False"

text \<open>
  The condition under which \<open>unmountApp\<close> reaches its last branch with a container it
  can remove: the application is registered, not \<open>UNMOUNT\<close>, not a prefetch, not hidden,
  and its container is attached to a parent.
\<close>

definition mounted_visible :: "env \<Rightarrow> world \<Rightarrow> string \<Rightarrow> cid \<Rightarrow> bool" where
  "mounted_visible E w appName c =
     (case map_get (appInstanceMap w) (formatAppName E appName) of
        None \<Rightarrow> False
      | Some a \<Rightarrow> appState a \<noteq> UNMOUNT \<and> \<not> isPrefetch a
                 \<and> keepAliveState a \<noteq> KEEP_ALIVE_HIDDEN
                 \<and> container a = Some c \<and> attached (elements w c))"


text \<open>
  A Registry with a visible, a hidden, an unmounted and a prefetched application, and
  a host page for it; \<open>E0\<close> is an environment whose elements finish their teardown
  later.
\<close>

definition demo_apps :: "app jsmap" where
  "demo_apps =
     [(''shown'', \<lparr>appState = MOUNTED, isPrefetch = False,
                  keepAliveState = KEEP_ALIVE_SHOWN, container = Some 0\<rparr>),
      (''hidden'', \<lparr>appState = MOUNTED, isPrefetch = False,
                   keepAliveState = KEEP_ALIVE_HIDDEN, container = Some 1\<rparr>),
      (''gone'', \<lparr>appState = UNMOUNT, isPrefetch = False,
                 keepAliveState = NONE, container = None\<rparr>),
      (''pre'', \<lparr>appState = LOADING, isPrefetch = True,
                keepAliveState = NONE, container = None\<rparr>)]"

definition E0 :: env where
  "E0 = \<lparr>formatAppName = id, emitsOnRemove = (\<lambda>c. [])\<rparr>"

definition el0 :: element where
  "el0 = \<lparr>attrs = (\<lambda>n. None), listeners = [], attached = True\<rparr>"

definition w0 :: world where
  "w0 = \<lparr>appInstanceMap = demo_apps, elements = (\<lambda>c. el0),
         sandboxes = (\<lambda>k. True), channels = (\<lambda>k. True),
         promises = (\<lambda>p. None), nextPid = 0, trace = []\<rparr>"

definition optsDestroy :: "unmountAppParams option" where
  "optsDestroy = Some \<lparr>destroy = Some True, clearAliveState = None\<rparr>"

definition optsClear :: "unmountAppParams option" where
  "optsClear = Some \<lparr>destroy = None, clearAliveState = Some True\<rparr>"

definition optsBoth :: "unmountAppParams option" where
  "optsBoth = Some \<lparr>destroy = Some True, clearAliveState = Some True\<rparr>"

text \<open>A Registry whose only application is hidden under keep-alive and \<open>UNMOUNT\<close>.\<close>

definition w1 :: world where
  "w1 = w0\<lparr>appInstanceMap :=
            [(''kept'', \<lparr>appState = UNMOUNT, isPrefetch = False,
                         keepAliveState = KEEP_ALIVE_HIDDEN, container = Some 1\<rparr>)]\<rparr>"

text \<open>The state in which the executor starts: the call is recorded and its promise is pending.\<close>

definition called :: "world \<Rightarrow> string \<Rightarrow> world" where
  "called w appName =
     log (Call (nextPid w) appName)
       (w\<lparr>promises := (promises w)(nextPid w := Some Pending), nextPid := Suc (nextPid w)\<rparr>)"

text \<open>
  An environment whose elements emit \<open>unmount\<close> while they are being removed, and a host
  page whose first container carries the marker attributes.
\<close>

definition E1 :: env where
  "E1 = \<lparr>formatAppName = id, emitsOnRemove = (\<lambda>c. [''unmount''])\<rparr>"

definition w2 :: world where
  "w2 = w0\<lparr>elements := (\<lambda>c. el0)
            (0 := el0\<lparr>attrs := (\<lambda>n. None)(''destroy'' := Some ''false'',
                                             ''destory'' := Some ''old'',
                                             ''keep-alive'' := Some ''true'')\<rparr>)\<rparr>"

text \<open>
  The promise a handler resolves, and the two listeners that a call registers.
\<close>

fun hpid :: "handler \<Rightarrow> pid" where
  "hpid (UnmountHandler p c) = p"
| "hpid (AfterhiddenHandler p c) = p"

definition own_unmount :: "pid \<Rightarrow> cid \<Rightarrow> string \<times> handler" where
  "own_unmount p c = (''unmount'', UnmountHandler p c)"

definition own_afterhidden :: "pid \<Rightarrow> cid \<Rightarrow> string \<times> handler" where
  "own_afterhidden p c = (''afterhidden'', AfterhiddenHandler p c)"

text \<open>
  A call \<open>p\<close> on container \<open>c\<close> is waiting (\<open>armed\<close>) when both its listeners are
  registered on \<open>c\<close>, it has no other listener anywhere, its promise is pending and
  \<open>resolve\<close> has not been called. It is \<open>settled\<close> when none of its listeners is
  left, its promise is fulfilled and \<open>resolve\<close> has been called exactly once. A state is
  \<open>fresh\<close> when the next promise is not yet used by any listener or trace entry.
\<close>

definition armed :: "pid \<Rightarrow> cid \<Rightarrow> world \<Rightarrow> bool" where
  "armed p c w =
     (own_unmount p c \<in> set (listeners (elements w c))
      \<and> own_afterhidden p c \<in> set (listeners (elements w c))
      \<and> (\<forall>d t h. (t, h) \<in> set (listeners (elements w d)) \<longrightarrow> hpid h = p \<longrightarrow>
                    d = c \<and> ((t, h) = own_unmount p c \<or> (t, h) = own_afterhidden p c))
      \<and> promises w p = Some Pending
      \<and> Resolve p \<notin> set (trace w))"

definition settled :: "pid \<Rightarrow> world \<Rightarrow> bool" where
  "settled p w =
     ((\<forall>d t h. (t, h) \<in> set (listeners (elements w d)) \<longrightarrow> hpid h \<noteq> p)
      \<and> promises w p = Some Fulfilled
      \<and> count_list (trace w) (Resolve p) = 1)"

definition fresh :: "world \<Rightarrow> bool" where
  "fresh w =
     ((\<forall>d t h. (t, h) \<in> set (listeners (elements w d)) \<longrightarrow> hpid h \<noteq> nextPid w)
      \<and> Resolve (nextPid w) \<notin> set (trace w))"

text \<open>
  The events that elements emit after a call has returned, dispatched in order;
  \<open>unmount\<close> and \<open>afterhidden\<close> are the terminal events, and a sequence hits a
  container when it holds a terminal event on it.
\<close>

fun fire :: "(cid \<times> string) list \<Rightarrow> world \<Rightarrow> world" where
  "fire [] w = w"
| "fire ((c, t) # evs) w = fire evs (dispatchEvent c t w)"

definition terminal :: "string \<Rightarrow> bool" where
  "terminal t = (t = ''unmount'' \<or> t = ''afterhidden'')"

definition hit :: "cid \<Rightarrow> (cid \<times> string) list \<Rightarrow> bool" where
  "hit c evs = list_ex (\<lambda>(d, t). d = c \<and> terminal t) evs"

section \<open>unmountAllApps\<close>

text \<open>
  \<^verbatim>\<open>Array.from(appInstanceMap.keys()).reduce((pre, next) => pre.then(() =>
  unmountApp(next, options)), Promise.resolve())\<close>: the names are read once, when
  \<open>unmountAllApps\<close> is called, and the reduction chains one \<^verbatim>\<open>then\<close> per name
  onto a promise that is already resolved. A \<^verbatim>\<open>then\<close> callback runs as a microtask,
  and only once the promise it was chained onto is fulfilled; the promise it was
  chained onto is the one returned by the previous callback, that is, by the previous
  \<open>unmountApp\<close>. A rejected promise never runs the callback, so the chain stops there.

  The chain is therefore the list of names still to be unmounted and the promise it is
  waiting for; one step of it is a microtask, which does nothing unless that promise
  is fulfilled. A run interleaves the chain's microtasks with the events that the
  elements of the page emit, in any order.
\<close>

record chain =
  remaining :: "string list"
  awaiting :: "pid option"
  chainOptions :: "unmountAppParams option"

definition unmountAllApps :: "unmountAppParams option \<Rightarrow> world \<Rightarrow> chain" where
  "unmountAllApps options w =
     \<lparr>remaining = getAllApps (appInstanceMap w), awaiting = None, chainOptions = options\<rparr>"

definition chain_ready :: "world \<Rightarrow> chain \<Rightarrow> bool" where
  "chain_ready w ch =
     (case awaiting ch of None \<Rightarrow> True | Some p \<Rightarrow> promises w p = Some Fulfilled)"

definition microtask :: "env \<Rightarrow> chain \<times> world \<Rightarrow> chain \<times> world" where
  "microtask E s =
     (let (ch, w) = s
      in if chain_ready w ch then
           (case remaining ch of
              [] \<Rightarrow> (ch, w)
            | next # names \<Rightarrow>
                (let (p, w') = unmountApp E next (chainOptions ch) w
                 in (ch\<lparr>remaining := names, awaiting := Some p\<rparr>, w')))
         else (ch, w))"

datatype sched = Microtask | Emit cid string

fun step :: "env \<Rightarrow> chain \<times> world \<Rightarrow> sched \<Rightarrow> chain \<times> world" where
  "step E s Microtask = microtask E s"
| "step E s (Emit c t) = (fst s, dispatchEvent c t (snd s))"

definition run :: "env \<Rightarrow> sched list \<Rightarrow> chain \<times> world \<Rightarrow> chain \<times> world" where
  "run E sch s = foldl (step E) s sch"

text \<open>
  Reading a trace: the names for which \<open>unmountApp\<close> was called, in order; the call
  whose promise has not been resolved yet (\<open>outstanding\<close>); and whether every call
  started while no earlier call was outstanding (\<open>gated\<close>).
\<close>

fun calls :: "obs list \<Rightarrow> string list" where
  "calls [] = []"
| "calls (Call p n # t) = n # calls t"
| "calls (x # t) = calls t"

fun is_call :: "obs \<Rightarrow> bool" where
  "is_call (Call p n) = True"
| "is_call x = False"

fun outstanding :: "pid option \<Rightarrow> obs list \<Rightarrow> pid option" where
  "outstanding cur [] = cur"
| "outstanding cur (Call p n # t) = outstanding (Some p) t"
| "outstanding cur (Resolve p # t) = outstanding (if cur = Some p then None else cur) t"
| "outstanding cur (x # t) = outstanding cur t"

fun gated :: "pid option \<Rightarrow> obs list \<Rightarrow> bool" where
  "gated cur [] = True"
| "gated cur (Call p n # t) = (cur = None \<and> gated (Some p) t)"
| "gated cur (Resolve p # t) = gated (if cur = Some p then None else cur) t"
| "gated cur (x # t) = gated cur t"

text \<open>
  \<open>ext w w'\<close>: from \<open>w\<close> to \<open>w'\<close> the trace has only grown, no call of \<open>unmountApp\<close> was
  started, and every promise that became fulfilled had its \<open>resolve\<close> recorded.
\<close>

definition ext :: "world \<Rightarrow> world \<Rightarrow> bool" where
  "ext w w' =
     (\<exists>xs. trace w' = trace w @ xs \<and> \<not> list_ex is_call xs
           \<and> (\<forall>q. promises w' q = Some Fulfilled \<longrightarrow>
                    promises w q = Some Fulfilled \<or> Resolve q \<in> set xs))"

text \<open>
  The invariant of a run of the chain that started when the trace had length \<open>n0\<close>:
  the trace since then is gated, an outstanding call is the one the chain awaits and
  its promise is not fulfilled; the names called so far and the names remaining make
  up the list the chain started with.
\<close>

definition K :: "nat \<Rightarrow> pid option \<Rightarrow> world \<Rightarrow> bool" where
  "K n0 a w =
     (n0 \<le> length (trace w) \<and> gated None (drop n0 (trace w))
      \<and> (\<forall>q. outstanding None (drop n0 (trace w)) = Some q \<longrightarrow>
               a = Some q \<and> promises w q \<noteq> Some Fulfilled))"

text \<open>\<open>Inv\<close> adds the bookkeeping of names to \<open>K\<close>.\<close>

definition Inv :: "nat \<Rightarrow> string list \<Rightarrow> chain \<times> world \<Rightarrow> bool" where
  "Inv n0 names s =
     (K n0 (awaiting (fst s)) (snd s)
      \<and> calls (drop n0 (trace (snd s))) @ remaining (fst s) = names)"

text \<open>
  A Registry whose first application is a prefetch and whose second is mounted, and a
  schedule that lets every application of the example Registry be unmounted.
\<close>

definition w3 :: world where
  "w3 = w0\<lparr>appInstanceMap :=
            [(''pre'', \<lparr>appState = LOADING, isPrefetch = True,
                        keepAliveState = NONE, container = None\<rparr>),
             (''shown'', \<lparr>appState = MOUNTED, isPrefetch = False,
                          keepAliveState = KEEP_ALIVE_SHOWN, container = Some 0\<rparr>)]\<rparr>"

definition sched0 :: "sched list" where
  "sched0 = [Microtask, Microtask, Emit 0 ''unmount'', Microtask, Microtask, Microtask]"

section \<open>MicroApp.start\<close>

text \<open>
  The values of the options that \<open>start\<close> only stores are opaque. In \<open>OptionsType\<close>,
  \<open>None\<close> is an option that is not given (or not of the kind \<open>start\<close> accepts:
  \<^verbatim>\<open>isFunction\<close>, \<^verbatim>\<open>isPlainObject\<close>); \<open>preFetchApps\<close> and \<open>globalAssets\<close>
  say whether the option is given and truthy. \<open>MicroApp\<close> holds the fields of the
  instance, \<open>browser\<close> the instance together with what \<open>start\<close> sees of the
  environment: \<^verbatim>\<open>isBrowser\<close>, \<^verbatim>\<open>window.customElements\<close> (\<open>None\<close> when it is
  missing, otherwise the tags defined so far) and the log.
\<close>

typedecl fetchType

typedecl lifeCyclesType

typedecl assetFilterType

typedecl pluginsType

record OptionsType =
  tagName :: "string option"
  shadowDOM :: "bool option"
  destroy :: "bool option"
  destory :: "bool option"
  inline :: "bool option"
  disableScopecss :: "bool option"
  disableSandbox :: "bool option"
  ssr :: "bool option"
  fetch :: "fetchType option"
  lifeCycles :: "lifeCyclesType option"
  preFetchApps :: bool
  globalAssets :: bool
  excludeAssetFilter :: "assetFilterType option"
  plugins :: "pluginsType option"

record MicroApp =
  this_tagName :: string
  this_shadowDOM :: "bool option"
  this_destroy :: "bool option"
  this_destory :: "bool option"
  this_inline :: "bool option"
  this_disableScopecss :: "bool option"
  this_disableSandbox :: "bool option"
  this_ssr :: "bool option"
  this_fetch :: "fetchType option"
  this_lifeCycles :: "lifeCyclesType option"
  this_excludeAssetFilter :: "assetFilterType option"
  this_plugins :: "pluginsType option"

record browser =
  microApp :: MicroApp
  isBrowser :: bool
  customElements :: "string list option"
  console :: "obs list"

text \<open>
  \<^verbatim>\<open>/^micro-app(-\S+)?/.test(tagName)\<close>: the pattern is anchored at the start only and
  its group is optional, so it matches exactly the strings that begin with
  \<^verbatim>\<open>micro-app\<close>. \<^verbatim>\<open>options?.tagName\<close> is truthy when the options are given and
  the tag name is a non-empty string.
\<close>

definition tagNamePattern :: "string \<Rightarrow> bool" where
  "tagNamePattern t = (take 9 t = ''micro-app'')"

definition truthyTagName :: "OptionsType option \<Rightarrow> string option" where
  "truthyTagName options =
     (case options of
        None \<Rightarrow> None
      | Some ops \<Rightarrow> (case tagName ops of
                      None \<Rightarrow> None
                    | Some t \<Rightarrow> if t = [] then None else Some t))"

text \<open>
  \<^verbatim>\<open>logError\<close> and \<^verbatim>\<open>logWarn\<close> (from \<^verbatim>\<open>./libs/utils\<close>) write to the log and
  return. \<^verbatim>\<open>initGlobalEnv\<close>, \<^verbatim>\<open>preFetch\<close>, \<^verbatim>\<open>getGlobalAssets\<close> and
  \<^verbatim>\<open>defineElement\<close> are imported from modules that are not among the source files;
  each call is recorded.
\<close>

definition logError :: "string \<Rightarrow> browser \<Rightarrow> browser" where
  "logError msg b = b\<lparr>console := console b @ [LogError msg]\<rparr>"

definition logWarning :: "string \<Rightarrow> browser \<Rightarrow> browser" where
  "logWarning msg b = b\<lparr>console := console b @ [LogWarn msg]\<rparr>"

definition initGlobalEnv :: "browser \<Rightarrow> browser" where
  "initGlobalEnv b = b\<lparr>console := console b @ [InitGlobalEnv]\<rparr>"

text \<open>
  Modelled from the spec: \<^verbatim>\<open>defineElement\<close> (\<^verbatim>\<open>./micro_app_element\<close>) is "the
  custom-element registration shim that exposes the embedding tag to the host markup
  language": it adds the tag to the defined custom elements.
\<close>

definition defineElement :: "string \<Rightarrow> browser \<Rightarrow> browser" where
  "defineElement tag b =
     b\<lparr>customElements := map_option (\<lambda>defined. defined @ [tag]) (customElements b),
       console := console b @ [DefineElement tag]\<rparr>"

text \<open>
  Lines 155-196: the options are copied to the instance; a function or object option
  replaces the stored one only when it is given. The renaming of the keys of
  \<^verbatim>\<open>options.plugins.modules\<close> happens inside the plugins object, which is opaque
  here.
\<close>

definition keep :: "'a option \<Rightarrow> 'a option \<Rightarrow> 'a option" where
  "keep new old = (case new of None \<Rightarrow> old | Some v \<Rightarrow> Some v)"

definition initOptions :: "OptionsType option \<Rightarrow> browser \<Rightarrow> browser" where
  "initOptions options b =
     (case options of
        None \<Rightarrow> b
      | Some ops \<Rightarrow>
          b\<lparr>microApp := (microApp b)
               \<lparr>this_shadowDOM := shadowDOM ops,
                this_destroy := destroy ops,
                this_destory := destory ops,
                this_inline := inline ops,
                this_disableScopecss := disableScopecss ops,
                this_disableSandbox := disableSandbox ops,
                this_ssr := ssr ops,
                this_fetch := keep (fetch ops) (this_fetch (microApp b)),
                this_lifeCycles := keep (lifeCycles ops) (this_lifeCycles (microApp b)),
                this_excludeAssetFilter :=
                  keep (excludeAssetFilter ops) (this_excludeAssetFilter (microApp b)),
                this_plugins := keep (plugins ops) (this_plugins (microApp b))\<rparr>,
             console := console b
               @ (if preFetchApps ops then [PreFetch] else [])
               @ (if globalAssets ops then [GetGlobalAssets] else [])\<rparr>)"

text \<open>
  \<^verbatim>\<open>start\<close> (lines 132-201). Each \<^verbatim>\<open>return logError(...)\<close> and
  \<^verbatim>\<open>return logWarn(...)\<close> ends the function; \<open>Inl\<close> carries the state of such an
  early return out of the check of the tag name.
\<close>

definition start :: "OptionsType option \<Rightarrow> browser \<Rightarrow> browser" where
  "start options b =
     (case (if isBrowser b then customElements b else None) of
        None \<Rightarrow> logError ''micro-app is not supported in this environment'' b
      | Some defined \<Rightarrow>
          (case (case truthyTagName options of
                   None \<Rightarrow> Inr b
                 | Some t \<Rightarrow>
                     if tagNamePattern t
                     then Inr (b\<lparr>microApp := (microApp b)\<lparr>this_tagName := t\<rparr>\<rparr>)
                     else Inl (logError (t @ '' is invalid tagName'') b)) of
             Inl returned \<Rightarrow> returned
           | Inr b1 \<Rightarrow>
               if this_tagName (microApp b1) \<in> set defined then
                 logWarning
                   (''element '' @ this_tagName (microApp b1) @ '' is already defined'') b1
               else
                 defineElement (this_tagName (microApp b1))
                   (initOptions options (initGlobalEnv b1))))"

text \<open>
  The conditions that \<open>start\<close> tests, by name: the environment is supported, the tag
  name that will be used, and whether the given tag name (if any) matches.
\<close>

definition supported :: "browser \<Rightarrow> bool" where
  "supported b = (isBrowser b \<and> customElements b \<noteq> None)"

definition chosenTag :: "OptionsType option \<Rightarrow> browser \<Rightarrow> string" where
  "chosenTag options b =
     (case truthyTagName options of None \<Rightarrow> this_tagName (microApp b) | Some t \<Rightarrow> t)"

definition validTag :: "OptionsType option \<Rightarrow> bool" where
  "validTag options =
     (case truthyTagName options of None \<Rightarrow> True | Some t \<Rightarrow> tagNamePattern t)"

definition prefetches :: "OptionsType option \<Rightarrow> obs list" where
  "prefetches options =
     (case options of
        None \<Rightarrow> []
      | Some ops \<Rightarrow> (if preFetchApps ops then [PreFetch] else [])
                    @ (if globalAssets ops then [GetGlobalAssets] else []))"

text \<open>An options object with nothing set, and a browser in which nothing is defined yet.\<close>

definition noOptions :: OptionsType where
  "noOptions =
     \<lparr>tagName = None, shadowDOM = None, destroy = None, destory = None, inline = None,
      disableScopecss = None, disableSandbox = None, ssr = None, fetch = None,
      lifeCycles = None, preFetchApps = False, globalAssets = False,
      excludeAssetFilter = None, plugins = None\<rparr>"

definition b0 :: browser where
  "b0 =
     \<lparr>microApp =
        \<lparr>this_tagName = ''micro-app'', this_shadowDOM = None, this_destroy = None,
         this_destory = None, this_inline = None, this_disableScopecss = None,
         this_disableSandbox = None, this_ssr = None, this_fetch = None,
         this_lifeCycles = None, this_excludeAssetFilter = None, this_plugins = None\<rparr>,
      isBrowser = True, customElements = Some [], console = []\<rparr>"

section \<open>Notions for the order of the unmounts\<close>

text \<open>
  A state is well formed when every promise named by a listener or by a recorded
  \<open>resolve\<close> has already been created. The trace \<open>t\<close> that follows the start of a call
  \<open>waits\<close> for container \<open>c\<close> when no further call starts in it before a terminal event
  has been dispatched on \<open>c\<close>; such an event has \<open>fired\<close> in \<open>t\<close> when \<open>t\<close> records its
  dispatch. \<open>holding\<close> is the invariant of the chain while it waits for a mounted,
  visible application: the trace since the start of the call waits, and until the
  event has fired the call is armed and is the one the chain awaits.
\<close>

definition well_formed :: "world \<Rightarrow> bool" where
  "well_formed w =
     ((\<forall>d t h. (t, h) \<in> set (listeners (elements w d)) \<longrightarrow> hpid h < nextPid w)
      \<and> (\<forall>q. Resolve q \<in> set (trace w) \<longrightarrow> q < nextPid w))"

definition fired :: "cid \<Rightarrow> obs list \<Rightarrow> bool" where
  "fired c t = (\<exists>e. terminal e \<and> DispatchEvent c e \<in> set t)"

fun waits :: "cid \<Rightarrow> obs list \<Rightarrow> bool" where
  "waits c [] = True"
| "waits c (Call p n # t) = False"
| "waits c (DispatchEvent d e # t) = (if d = c \<and> terminal e then True else waits c t)"
| "waits c (x # t) = waits c t"

definition holding :: "cid \<Rightarrow> pid \<Rightarrow> obs list \<Rightarrow> chain \<times> world \<Rightarrow> bool" where
  "holding c p base s =
     (\<exists>t. trace (snd s) = base @ t \<and> waits c t
          \<and> (\<not> fired c t \<longrightarrow> armed p c (snd s) \<and> awaiting (fst s) = Some p))"

text \<open>What the first unmount of the example run records before the second one starts.\<close>

definition ys0 :: "obs list" where
  "ys0 = [AddEventListener 0 ''unmount'' (UnmountHandler 0 0),
          AddEventListener 0 ''afterhidden'' (AfterhiddenHandler 0 0),
          RemoveChild 0, DispatchEvent 0 ''unmount'',
          RemoveEventListener 0 ''unmount'' (UnmountHandler 0 0),
          RemoveEventListener 0 ''afterhidden'' (AfterhiddenHandler 0 0),
          Resolve 0]"

section \<open>Properties of the listings\<close>

lemma foldl_active_acc:
  "foldl (\<lambda>activeApps (appName, a).
            if activeCond e a then activeApps @ [appName] else activeApps) acc m
   = acc @ map fst (filter (\<lambda>(n, a). activeCond e a) m)"
  by (induction m arbitrary: acc) (auto split: prod.splits)

lemma activeCond_spec:
  "activeCond e a = spec_active (\<not> falsy e) a"
  by (auto simp: activeCond_def spec_active_def)

text \<open>
  C4: \<open>getActiveApps\<close> returns, in Registry order, exactly the names of the applications
  whose lifecycle state is not \<open>UNMOUNT\<close> and whose \<open>isPrefetch\<close> flag is false; called with
  \<open>true\<close> it also leaves out the applications in \<open>KEEP_ALIVE_HIDDEN\<close>, called with
  \<open>false\<close> or with no argument it keeps them.
\<close>

theorem getActiveApps_spec:
  "getActiveApps m (Some True) =
     map fst (filter (\<lambda>(n, a). appState a \<noteq> UNMOUNT \<and> \<not> isPrefetch a \<and>
                               keepAliveState a \<noteq> KEEP_ALIVE_HIDDEN) m)
   \<and> getActiveApps m (Some False) =
     map fst (filter (\<lambda>(n, a). appState a \<noteq> UNMOUNT \<and> \<not> isPrefetch a) m)
   \<and> getActiveApps m None =
     map fst (filter (\<lambda>(n, a). appState a \<noteq> UNMOUNT \<and> \<not> isPrefetch a) m)
   \<and> getActiveApps m e = map fst (filter (\<lambda>(n, a). spec_active (\<not> falsy e) a) m)"
proof -
  have gen: "getActiveApps m x = map fst (filter (\<lambda>(n, a). activeCond x a) m)" for x
    by (simp add: getActiveApps_def foldl_active_acc)
  have t: "(\<lambda>(n::string, a). activeCond (Some True) a) =
           (\<lambda>(n, a). appState a \<noteq> UNMOUNT \<and> \<not> isPrefetch a \<and>
                      keepAliveState a \<noteq> KEEP_ALIVE_HIDDEN)"
    by (auto simp: activeCond_def falsy_def fun_eq_iff)
  have f: "(\<lambda>(n::string, a). activeCond (Some False) a) =
           (\<lambda>(n, a). appState a \<noteq> UNMOUNT \<and> \<not> isPrefetch a)"
    by (auto simp: activeCond_def falsy_def fun_eq_iff)
  have n: "(\<lambda>(n::string, a). activeCond None a) =
           (\<lambda>(n, a). appState a \<noteq> UNMOUNT \<and> \<not> isPrefetch a)"
    by (auto simp: activeCond_def falsy_def fun_eq_iff)
  have s: "(\<lambda>(n::string, a). activeCond e a) = (\<lambda>(n, a). spec_active (\<not> falsy e) a)"
    by (simp add: activeCond_spec)
  show ?thesis
    using gen [of "Some True"] gen [of "Some False"] gen [of None] gen [of e]
    by (simp only: t f n s)
qed

theorem getActiveApps_spec_witness:
  "getActiveApps demo_apps (Some True) = [''shown'']
   \<and> getActiveApps demo_apps (Some False) = [''shown'', ''hidden'']
   \<and> getActiveApps demo_apps None = [''shown'', ''hidden'']"
  using getActiveApps_spec [of demo_apps None]
  by (simp add: demo_apps_def)

lemma keys_map_set:
  "map fst (map_set m k v) = (if k \<in> set (map fst m) then map fst m else map fst m @ [k])"
  by (induction m) (force simp: image_iff)+

lemma keys_map_delete:
  "map fst (map_delete m k) = removeAll k (map fst m)"
  by (induction m) auto

lemma distinct_map_apply:
  "distinct (map fst m) \<Longrightarrow> distinct (map fst (map_apply m x))"
  by (cases x) (auto simp: keys_map_set keys_map_delete distinct_removeAll)

lemma keys_foldl_apply:
  "distinct (map fst m) \<Longrightarrow>
   map fst (foldl map_apply m ops) = insertion_order (map fst m) ops
   \<and> distinct (map fst (foldl map_apply m ops))"
proof (induction ops arbitrary: m)
  case Nil
  then show ?case by simp
next
  case (Cons x ops)
  have d: "distinct (map fst (map_apply m x))"
    using Cons.prems by (rule distinct_map_apply)
  have step: "insertion_order (map fst m) (x # ops) =
              insertion_order (map fst (map_apply m x)) ops"
    using Cons.prems by (cases x) (simp_all add: keys_map_set keys_map_delete)
  from Cons.IH [OF d]
  have a: "map fst (foldl map_apply (map_apply m x) ops) =
           insertion_order (map fst (map_apply m x)) ops"
    and b: "distinct (map fst (foldl map_apply (map_apply m x) ops))"
    by blast+
  show ?case
    unfolding foldl_Cons step using a b by blast
qed

text \<open>
  C9: \<open>getAllApps\<close> returns every registered name, unfiltered, in insertion order:
  one name per Registry entry, in the order of the entries, and for a Registry
  built by any history of \<open>set\<close> and \<open>delete\<close> operations that order is the order in
  which the surviving entries were added.
\<close>

theorem getAllApps_insertion_order:
  "getAllApps m = map fst m
   \<and> length (getAllApps m) = length m
   \<and> getAllApps (map_build ops) = insertion_order [] ops
   \<and> distinct (getAllApps (map_build ops))
   \<and> getAllApps (map_set m k v) =
       (if k \<in> set (getAllApps m) then getAllApps m else getAllApps m @ [k])"
proof -
  have e: "distinct (map fst ([] :: app jsmap))"
    by simp
  have "map fst (foldl map_apply [] ops) = insertion_order (map fst ([] :: app jsmap)) ops"
    and "distinct (map fst (foldl map_apply [] ops))"
    using keys_foldl_apply [OF e, of ops] by blast+
  then show ?thesis
    by (simp add: getAllApps_def map_keys_def map_build_def keys_map_set)
qed

section \<open>Frame properties of the primitive operations\<close>

lemma log_fields [simp]:
  "appInstanceMap (log x w) = appInstanceMap w"
  "elements (log x w) = elements w"
  "sandboxes (log x w) = sandboxes w"
  "channels (log x w) = channels w"
  "promises (log x w) = promises w"
  "nextPid (log x w) = nextPid w"
  "trace (log x w) = trace w @ [x]"
  by (simp_all add: log_def)

lemma upd_element_fields [simp]:
  "appInstanceMap (upd_element c f w) = appInstanceMap w"
  "elements (upd_element c f w) = (elements w)(c := f (elements w c))"
  "sandboxes (upd_element c f w) = sandboxes w"
  "channels (upd_element c f w) = channels w"
  "promises (upd_element c f w) = promises w"
  "nextPid (upd_element c f w) = nextPid w"
  "trace (upd_element c f w) = trace w"
  by (simp_all add: upd_element_def)

lemma resolve_fields [simp]:
  "appInstanceMap (resolve p w) = appInstanceMap w"
  "elements (resolve p w) = elements w"
  "sandboxes (resolve p w) = sandboxes w"
  "channels (resolve p w) = channels w"
  "nextPid (resolve p w) = nextPid w"
  "trace (resolve p w) = trace w @ [Resolve p]"
  "promises (resolve p w) =
     (if promises w p = Some Pending then (promises w)(p := Some Fulfilled) else promises w)"
  by (simp_all add: resolve_def)

lemma reject_fields [simp]:
  "appInstanceMap (reject p w) = appInstanceMap w"
  "elements (reject p w) = elements w"
  "sandboxes (reject p w) = sandboxes w"
  "channels (reject p w) = channels w"
  "nextPid (reject p w) = nextPid w"
  "trace (reject p w) = trace w @ [Reject p]"
  "promises (reject p w) =
     (if promises w p = Some Pending then (promises w)(p := Some Rejected) else promises w)"
  by (simp_all add: reject_def)

lemma removeEventListener_fields [simp]:
  "appInstanceMap (removeEventListener c t h w) = appInstanceMap w"
  "sandboxes (removeEventListener c t h w) = sandboxes w"
  "channels (removeEventListener c t h w) = channels w"
  "promises (removeEventListener c t h w) = promises w"
  "nextPid (removeEventListener c t h w) = nextPid w"
  "trace (removeEventListener c t h w) = trace w @ [RemoveEventListener c t h]"
  "attrs (elements (removeEventListener c t h w) d) = attrs (elements w d)"
  "attached (elements (removeEventListener c t h w) d) = attached (elements w d)"
  "listeners (elements (removeEventListener c t h w) d) =
     (if d = c then removeAll (t, h) (listeners (elements w c)) else listeners (elements w d))"
  by (simp_all add: removeEventListener_def)

lemma addEventListener_fields [simp]:
  "appInstanceMap (addEventListener c t h w) = appInstanceMap w"
  "sandboxes (addEventListener c t h w) = sandboxes w"
  "channels (addEventListener c t h w) = channels w"
  "promises (addEventListener c t h w) = promises w"
  "nextPid (addEventListener c t h w) = nextPid w"
  "trace (addEventListener c t h w) = trace w @ [AddEventListener c t h]"
  "attrs (elements (addEventListener c t h w) d) = attrs (elements w d)"
  "attached (elements (addEventListener c t h w) d) = attached (elements w d)"
  "listeners (elements (addEventListener c t h w) d) =
     (if d = c then (if (t, h) \<in> set (listeners (elements w c)) then listeners (elements w c)
                     else listeners (elements w c) @ [(t, h)])
      else listeners (elements w d))"
  by (simp_all add: addEventListener_def)

lemma setAttribute_fields [simp]:
  "appInstanceMap (setAttribute c n v w) = appInstanceMap w"
  "sandboxes (setAttribute c n v w) = sandboxes w"
  "channels (setAttribute c n v w) = channels w"
  "promises (setAttribute c n v w) = promises w"
  "nextPid (setAttribute c n v w) = nextPid w"
  "trace (setAttribute c n v w) = trace w @ [SetAttribute c n v]"
  "listeners (elements (setAttribute c n v w) d) = listeners (elements w d)"
  "attached (elements (setAttribute c n v w) d) = attached (elements w d)"
  "attrs (elements (setAttribute c n v w) d) =
     (if d = c then (attrs (elements w c))(n := Some v) else attrs (elements w d))"
  by (simp_all add: setAttribute_def)

lemma removeAttribute_fields [simp]:
  "appInstanceMap (removeAttribute c n w) = appInstanceMap w"
  "sandboxes (removeAttribute c n w) = sandboxes w"
  "channels (removeAttribute c n w) = channels w"
  "promises (removeAttribute c n w) = promises w"
  "nextPid (removeAttribute c n w) = nextPid w"
  "trace (removeAttribute c n w) = trace w @ [RemoveAttribute c n]"
  "listeners (elements (removeAttribute c n w) d) = listeners (elements w d)"
  "attached (elements (removeAttribute c n w) d) = attached (elements w d)"
  "attrs (elements (removeAttribute c n w) d) =
     (if d = c then (attrs (elements w c))(n := None) else attrs (elements w d))"
  by (simp_all add: removeAttribute_def)

lemma run_handler_frame [simp]:
  "appInstanceMap (run_handler h w) = appInstanceMap w"
  "sandboxes (run_handler h w) = sandboxes w"
  "channels (run_handler h w) = channels w"
  "nextPid (run_handler h w) = nextPid w"
  "attrs (elements (run_handler h w) d) = attrs (elements w d)"
  "attached (elements (run_handler h w) d) = attached (elements w d)"
  by (cases h; simp)+

lemma invoke_frame [simp]:
  "appInstanceMap (invoke c t w h) = appInstanceMap w"
  "sandboxes (invoke c t w h) = sandboxes w"
  "channels (invoke c t w h) = channels w"
  "nextPid (invoke c t w h) = nextPid w"
  "attrs (elements (invoke c t w h) d) = attrs (elements w d)"
  "attached (elements (invoke c t w h) d) = attached (elements w d)"
  by (simp_all add: invoke_def)

lemma foldl_invoke_frame [simp]:
  "appInstanceMap (foldl (invoke c t) w hs) = appInstanceMap w"
  "sandboxes (foldl (invoke c t) w hs) = sandboxes w"
  "channels (foldl (invoke c t) w hs) = channels w"
  "nextPid (foldl (invoke c t) w hs) = nextPid w"
  "attrs (elements (foldl (invoke c t) w hs) d) = attrs (elements w d)"
  "attached (elements (foldl (invoke c t) w hs) d) = attached (elements w d)"
  by (induction hs arbitrary: w; simp)+

lemma dispatchEvent_frame [simp]:
  "appInstanceMap (dispatchEvent c t w) = appInstanceMap w"
  "sandboxes (dispatchEvent c t w) = sandboxes w"
  "channels (dispatchEvent c t w) = channels w"
  "nextPid (dispatchEvent c t w) = nextPid w"
  "attrs (elements (dispatchEvent c t w) d) = attrs (elements w d)"
  "attached (elements (dispatchEvent c t w) d) = attached (elements w d)"
  by (simp_all add: dispatchEvent_def)


lemma map_get_set [simp]: "map_get (map_set m k v) k = Some v"
  by (induction m) auto


section \<open>Properties of unmountApp\<close>







text \<open>
  C6: for a name that, once formatted, is not in the Registry, \<open>unmountApp\<close> returns a
  promise that is fulfilled (never rejected), logs the warning, and changes nothing
  else: the Registry, the elements, the Sandbox Contexts and the channels are as before.
\<close>

theorem unmountApp_missing:
  assumes "map_get (appInstanceMap w) (formatAppName E appName) = None"
  shows "unmountApp E appName options w =
           (nextPid w,
            w\<lparr>promises := (promises w)(nextPid w := Some Fulfilled),
              nextPid := Suc (nextPid w),
              trace := trace w @ [Call (nextPid w) appName,
                                  LogWarn (''app '' @ appName @ '' does not exist''),
                                  Resolve (nextPid w)]\<rparr>)"
  using assms
  by (simp add: unmountApp_def executor_def Let_def logWarn_def resolve_def log_def)

theorem unmountApp_missing_witness:
  "map_get (appInstanceMap w0) (formatAppName E0 ''nope'') = None
   \<and> promises (snd (unmountApp E0 ''nope'' None w0)) 0 = Some Fulfilled
   \<and> appInstanceMap (snd (unmountApp E0 ''nope'' None w0)) = demo_apps
   \<and> trace (snd (unmountApp E0 ''nope'' None w0)) =
       [Call 0 ''nope'', LogWarn ''app nope does not exist'', Resolve 0]"
proof -
  have h: "map_get (appInstanceMap w0) (formatAppName E0 ''nope'') = None"
    by (simp add: w0_def E0_def demo_apps_def)
  show ?thesis
    using h unmountApp_missing [OF h, of None]
    by (simp add: w0_def)
qed

text \<open>
  C5: for an application that is already \<open>UNMOUNT\<close> or is a prefetch, \<open>unmountApp\<close>
  with \<open>destroy: true\<close> calls \<open>actionsForCompletelyDestroy\<close> (the Registry entry, the
  Sandbox Context and the channel are released) and then resolves; without \<open>destroy\<close>
  it only resolves, at once, and no state or container changes.
\<close>

theorem unmountApp_unmounted_or_prefetch:
  assumes "map_get (appInstanceMap w) (formatAppName E appName) = Some a"
    and "appState a = UNMOUNT \<or> isPrefetch a"
  shows "unmountApp E appName options w =
           (nextPid w,
            if optDestroy options
            then w\<lparr>appInstanceMap := map_delete (appInstanceMap w) (formatAppName E appName),
                   sandboxes := (sandboxes w)(formatAppName E appName := False),
                   channels := (channels w)(formatAppName E appName := False),
                   promises := (promises w)(nextPid w := Some Fulfilled),
                   nextPid := Suc (nextPid w),
                   trace := trace w @ [Call (nextPid w) appName,
                                       ActionsForCompletelyDestroy (formatAppName E appName),
                                       Resolve (nextPid w)]\<rparr>
            else w\<lparr>promises := (promises w)(nextPid w := Some Fulfilled),
                   nextPid := Suc (nextPid w),
                   trace := trace w @ [Call (nextPid w) appName, Resolve (nextPid w)]\<rparr>)"
  using assms
  by (simp add: unmountApp_def executor_def Let_def resolve_def log_def
      actionsForCompletelyDestroy_def release_def)




lemma unmountApp_fst: "fst (unmountApp E appName options w) = nextPid w"
  by (simp add: unmountApp_def Let_def)




lemmas demo_simps = w0_def E0_def el0_def demo_apps_def optsDestroy_def optsClear_def
  optsBoth_def optDestroy_def optClearAliveState_def getAllApps_def map_keys_def E1_def
  w2_def mounted_visible_def

theorem unmountApp_unmounted_or_prefetch_witness:
  "getAllApps (appInstanceMap (snd (unmountApp E0 ''gone'' optsDestroy w0))) =
     [''shown'', ''hidden'', ''pre'']
   \<and> \<not> sandboxes (snd (unmountApp E0 ''gone'' optsDestroy w0)) ''gone''
   \<and> trace (snd (unmountApp E0 ''gone'' optsDestroy w0)) =
       [Call 0 ''gone'', ActionsForCompletelyDestroy ''gone'', Resolve 0]
   \<and> appInstanceMap (snd (unmountApp E0 ''pre'' optsClear w0)) = demo_apps
   \<and> trace (snd (unmountApp E0 ''pre'' optsClear w0)) = [Call 0 ''pre'', Resolve 0]"
proof -
  have g: "map_get (appInstanceMap w0) (formatAppName E0 ''gone'') =
             Some \<lparr>appState = UNMOUNT, isPrefetch = False, keepAliveState = NONE,
                   container = None\<rparr>"
    by (simp add: demo_simps)
  have p: "map_get (appInstanceMap w0) (formatAppName E0 ''pre'') =
             Some \<lparr>appState = LOADING, isPrefetch = True, keepAliveState = NONE,
                   container = None\<rparr>"
    by (simp add: demo_simps)
  show ?thesis
    using unmountApp_unmounted_or_prefetch [OF g, of optsDestroy]
      unmountApp_unmounted_or_prefetch [OF p, of optsClear]
    by (simp add: demo_simps)
qed



section \<open>The branch of a mounted, visible application\<close>

lemma emit_all_frame [simp]:
  "appInstanceMap (emit_all c ts w) = appInstanceMap w"
  "sandboxes (emit_all c ts w) = sandboxes w"
  "channels (emit_all c ts w) = channels w"
  "nextPid (emit_all c ts w) = nextPid w"
  "attrs (elements (emit_all c ts w) d) = attrs (elements w d)"
  "attached (elements (emit_all c ts w) d) = attached (elements w d)"
  by (induction ts arbitrary: w; simp)+

lemma attr_ops_run_handler [simp]:
  "filter is_attr_op (trace (run_handler h w)) = filter is_attr_op (trace w)"
  by (cases h) simp_all

lemma attr_ops_foldl_invoke [simp]:
  "filter is_attr_op (trace (foldl (invoke c t) w hs)) = filter is_attr_op (trace w)"
  by (induction hs arbitrary: w) (simp_all add: invoke_def)

lemma attr_ops_dispatchEvent [simp]:
  "filter is_attr_op (trace (dispatchEvent c t w)) = filter is_attr_op (trace w)"
  by (simp add: dispatchEvent_def)

lemma attr_ops_emit_all [simp]:
  "filter is_attr_op (trace (emit_all c ts w)) = filter is_attr_op (trace w)"
  by (induction ts arbitrary: w) simp_all

text \<open>Every operation only extends the trace.\<close>

lemma trace_run_handler: "\<exists>t. trace (run_handler h w) = trace w @ t"
  by (cases h) simp_all

lemma trace_invoke: "\<exists>t. trace (invoke c e w h) = trace w @ t"
  using trace_run_handler [of h w] by (simp add: invoke_def)

lemma trace_foldl_invoke: "\<exists>t. trace (foldl (invoke c e) w hs) = trace w @ t"
proof (induction hs arbitrary: w)
  case Nil
  then show ?case by simp
next
  case (Cons h hs)
  obtain t1 where t1: "trace (invoke c e w h) = trace w @ t1"
    using trace_invoke by blast
  obtain t2 where "trace (foldl (invoke c e) (invoke c e w h) hs) = trace (invoke c e w h) @ t2"
    using Cons.IH by blast
  then show ?case by (simp add: t1)
qed

lemma trace_dispatchEvent: "\<exists>t. trace (dispatchEvent c e w) = trace w @ DispatchEvent c e # t"
  using trace_foldl_invoke [of c e "log (DispatchEvent c e) w"]
  by (auto simp: dispatchEvent_def)

lemma trace_emit_all: "\<exists>t. trace (emit_all c ts w) = trace w @ t"
proof (induction ts arbitrary: w)
  case Nil
  then show ?case by simp
next
  case (Cons e ts)
  obtain t1 where t1: "trace (dispatchEvent c e w) = trace w @ DispatchEvent c e # t1"
    using trace_dispatchEvent by blast
  obtain t2 where "trace (emit_all c ts (dispatchEvent c e w)) = trace (dispatchEvent c e w) @ t2"
    using Cons.IH by blast
  then show ?case by (simp add: t1)
qed

lemma detach_fields [simp]:
  "appInstanceMap (detach c w) = appInstanceMap w"
  "sandboxes (detach c w) = sandboxes w"
  "channels (detach c w) = channels w"
  "promises (detach c w) = promises w"
  "nextPid (detach c w) = nextPid w"
  "trace (detach c w) = trace w @ [RemoveChild c]"
  "attrs (elements (detach c w) d) = attrs (elements w d)"
  "listeners (elements (detach c w) d) = listeners (elements w d)"
  "attached (elements (detach c w) d) = (d \<noteq> c \<and> attached (elements w d))"
  by (simp_all add: detach_def)

lemma restoreAttribute_fields [simp]:
  "appInstanceMap (restoreAttribute c n x w) = appInstanceMap w"
  "sandboxes (restoreAttribute c n x w) = sandboxes w"
  "channels (restoreAttribute c n x w) = channels w"
  "promises (restoreAttribute c n x w) = promises w"
  "nextPid (restoreAttribute c n x w) = nextPid w"
  "trace (restoreAttribute c n x w) =
     trace w @ (case x of None \<Rightarrow> [] | Some v \<Rightarrow> [SetAttribute c n v])"
  "listeners (elements (restoreAttribute c n x w) d) = listeners (elements w d)"
  "attached (elements (restoreAttribute c n x w) d) = attached (elements w d)"
  "attrs (elements (restoreAttribute c n x w) d) =
     (if d = c \<and> x \<noteq> None then (attrs (elements w c))(n := x) else attrs (elements w d))"
  by (cases x; simp add: restoreAttribute_def)+

lemma attachHandlers_fields [simp]:
  "appInstanceMap (attachHandlers p c w) = appInstanceMap w"
  "sandboxes (attachHandlers p c w) = sandboxes w"
  "channels (attachHandlers p c w) = channels w"
  "promises (attachHandlers p c w) = promises w"
  "nextPid (attachHandlers p c w) = nextPid w"
  "trace (attachHandlers p c w) =
     trace w @ [AddEventListener c ''unmount'' (UnmountHandler p c),
                AddEventListener c ''afterhidden'' (AfterhiddenHandler p c)]"
  "attrs (elements (attachHandlers p c w) d) = attrs (elements w d)"
  "attached (elements (attachHandlers p c w) d) = attached (elements w d)"
  by (simp_all add: attachHandlers_def)

lemma removeChild_attached:
  "attached (elements w c) \<Longrightarrow>
   removeChild E c w = Some (emit_all c (emitsOnRemove E c) (detach c w))"
  by (simp add: removeChild_def)

lemma branches_attached:
  assumes "attached (elements w c)"
  shows "destroyBranch E c w =
           Normal (restoreAttribute c ''destory'' (attrs (elements w c) ''destory'')
                    (restoreAttribute c ''destroy'' (attrs (elements w c) ''destroy'')
                      (removeAttribute c ''destroy''
                        (emit_all c (emitsOnRemove E c)
                          (detach c (setAttribute c ''destroy'' ''true'' w))))))"
    and "clearAliveBranch E c w =
           Normal (restoreAttribute c ''keep-alive'' (attrs (elements w c) ''keep-alive'')
                    (emit_all c (emitsOnRemove E c)
                      (detach c (removeAttribute c ''keep-alive'' w))))"
    and "detachBranch E c w = Normal (emit_all c (emitsOnRemove E c) (detach c w))"
  using assms
  by (auto simp: destroyBranch_def clearAliveBranch_def detachBranch_def Let_def
      removeChild_attached hasAttribute_def getAttribute_def)

text \<open>
  With an attached container the last branch runs to its end, and its result is one of
  three compositions of the primitive operations.
\<close>

lemma unmountVisible_attached:
  assumes "attached (elements w c)"
  shows "unmountVisible E p c options w =
           Normal
            (if optDestroy options then
               restoreAttribute c ''destory'' (attrs (elements w c) ''destory'')
                 (restoreAttribute c ''destroy'' (attrs (elements w c) ''destroy'')
                   (removeAttribute c ''destroy''
                     (emit_all c (emitsOnRemove E c)
                       (detach c (setAttribute c ''destroy'' ''true''
                          (attachHandlers p c w))))))
             else if optClearAliveState options \<and> attrs (elements w c) ''keep-alive'' \<noteq> None
             then
               restoreAttribute c ''keep-alive'' (attrs (elements w c) ''keep-alive'')
                 (emit_all c (emitsOnRemove E c)
                   (detach c (removeAttribute c ''keep-alive'' (attachHandlers p c w))))
             else emit_all c (emitsOnRemove E c) (detach c (attachHandlers p c w)))"
proof -
  have a: "attached (elements (attachHandlers p c w) c)"
    using assms by simp
  show ?thesis
    unfolding unmountVisible_def Let_def branches_attached [OF a]
    by (auto simp: hasAttribute_def)
qed

lemma trace_emit_all_since:
  "trace (emit_all c ts w) = trace w @ since w (emit_all c ts w)"
  using trace_emit_all [of c ts w] by (auto simp: since_def)

lemma since_append: "trace w' = trace w @ t \<Longrightarrow> since w w' = t"
  by (simp add: since_def)

lemma attr_ops_since_emit_all [simp]:
  "filter is_attr_op (since w (emit_all c ts w)) = []"
proof -
  have "filter is_attr_op (trace (emit_all c ts w)) =
        filter is_attr_op (trace w) @ filter is_attr_op (since w (emit_all c ts w))"
    by (subst trace_emit_all_since) simp
  then show ?thesis by simp
qed

lemma unmountApp_visible:
  assumes "mounted_visible E w appName c"
  shows "unmountApp E appName options w =
           (nextPid w,
            settle (nextPid w)
              (unmountVisible E (nextPid w) c options
                 (log (Call (nextPid w) appName)
                    (w\<lparr>promises := (promises w)(nextPid w := Some Pending),
                        nextPid := Suc (nextPid w)\<rparr>))))"
  using assms
  by (auto simp: unmountApp_def executor_def Let_def mounted_visible_def split: option.splits)

lemma called_fields [simp]:
  "appInstanceMap (called w n) = appInstanceMap w"
  "elements (called w n) = elements w"
  "sandboxes (called w n) = sandboxes w"
  "channels (called w n) = channels w"
  "promises (called w n) = (promises w)(nextPid w := Some Pending)"
  "nextPid (called w n) = Suc (nextPid w)"
  "trace (called w n) = trace w @ [Call (nextPid w) n]"
  by (simp_all add: called_def)

lemma unmountApp_visible_destroy:
  assumes "mounted_visible E w appName c" and "optDestroy options"
  shows "unmountApp E appName options w =
           (nextPid w,
            restoreAttribute c ''destory'' (attrs (elements w c) ''destory'')
              (restoreAttribute c ''destroy'' (attrs (elements w c) ''destroy'')
                (removeAttribute c ''destroy''
                  (emit_all c (emitsOnRemove E c)
                    (detach c (setAttribute c ''destroy'' ''true''
                       (attachHandlers (nextPid w) c (called w appName))))))))"
proof -
  have a: "attached (elements (called w appName) c)"
    using assms(1) by (auto simp: mounted_visible_def split: option.splits)
  show ?thesis
    unfolding unmountApp_visible [OF assms(1)] called_def [symmetric]
      unmountVisible_attached [OF a]
    using assms(2) by simp
qed

lemma visible_destroy_facts:
  assumes "mounted_visible E w appName c" and "optDestroy options"
    and "unmountApp E appName options w = (p, w')"
  shows "attrs (elements w' d) = attrs (elements w d)"
    and "\<not> attached (elements w' c)"
    and "filter is_attr_op (since w w') =
           [SetAttribute c ''destroy'' ''true'', RemoveAttribute c ''destroy'']
           @ (case attrs (elements w c) ''destroy'' of
                None \<Rightarrow> [] | Some v \<Rightarrow> [SetAttribute c ''destroy'' v])
           @ (case attrs (elements w c) ''destory'' of
                None \<Rightarrow> [] | Some v \<Rightarrow> [SetAttribute c ''destory'' v])"
proof -
  have w': "w' = restoreAttribute c ''destory'' (attrs (elements w c) ''destory'')
              (restoreAttribute c ''destroy'' (attrs (elements w c) ''destroy'')
                (removeAttribute c ''destroy''
                  (emit_all c (emitsOnRemove E c)
                    (detach c (setAttribute c ''destroy'' ''true''
                       (attachHandlers (nextPid w) c (called w appName)))))))"
    using assms(3) unfolding unmountApp_visible_destroy [OF assms(1,2)] by auto
  show "attrs (elements w' d) = attrs (elements w d)"
    unfolding w'
    by (cases "attrs (elements w c) ''destroy''"; cases "attrs (elements w c) ''destory''")
      (auto simp: fun_eq_iff)
  show "\<not> attached (elements w' c)"
    unfolding w' by simp
  have "trace w' = trace w @ Call (nextPid w) appName #
          [AddEventListener c ''unmount'' (UnmountHandler (nextPid w) c),
           AddEventListener c ''afterhidden'' (AfterhiddenHandler (nextPid w) c),
           SetAttribute c ''destroy'' ''true'', RemoveChild c]
          @ since (detach c (setAttribute c ''destroy'' ''true''
                     (attachHandlers (nextPid w) c (called w appName))))
              (emit_all c (emitsOnRemove E c)
                 (detach c (setAttribute c ''destroy'' ''true''
                     (attachHandlers (nextPid w) c (called w appName)))))
          @ RemoveAttribute c ''destroy''
          # (case attrs (elements w c) ''destroy'' of
               None \<Rightarrow> [] | Some v \<Rightarrow> [SetAttribute c ''destroy'' v])
          @ (case attrs (elements w c) ''destory'' of
               None \<Rightarrow> [] | Some v \<Rightarrow> [SetAttribute c ''destory'' v])"
    unfolding w' by (simp add: trace_emit_all_since)
  from since_append [OF this]
  show "filter is_attr_op (since w w') =
           [SetAttribute c ''destroy'' ''true'', RemoveAttribute c ''destroy'']
           @ (case attrs (elements w c) ''destroy'' of
                None \<Rightarrow> [] | Some v \<Rightarrow> [SetAttribute c ''destroy'' v])
           @ (case attrs (elements w c) ''destory'' of
                None \<Rightarrow> [] | Some v \<Rightarrow> [SetAttribute c ''destory'' v])"
    by (simp split: option.splits)
qed

text \<open>
  C2: when a mounted, visible application is destroyed, the container's \<open>destroy\<close> and
  \<open>destory\<close> attributes have, once the call is over and the container removed, exactly
  the values they had before; in particular, without a prior value the \<open>destroy\<close>
  marker that was set for the removal is gone. The only attribute writes of the call
  are the temporary marker, its removal and the restoring of the prior values.
\<close>

theorem unmountApp_destroy_restores_markers:
  assumes "mounted_visible E w appName c" and "optDestroy options"
    and "unmountApp E appName options w = (p, w')"
  shows "attrs (elements w' c) ''destroy'' = attrs (elements w c) ''destroy''
       \<and> attrs (elements w' c) ''destory'' = attrs (elements w c) ''destory''
       \<and> \<not> attached (elements w' c)
       \<and> filter is_attr_op (since w w') =
           [SetAttribute c ''destroy'' ''true'', RemoveAttribute c ''destroy'']
           @ (case attrs (elements w c) ''destroy'' of
                None \<Rightarrow> [] | Some v \<Rightarrow> [SetAttribute c ''destroy'' v])
           @ (case attrs (elements w c) ''destory'' of
                None \<Rightarrow> [] | Some v \<Rightarrow> [SetAttribute c ''destory'' v])"
  using visible_destroy_facts [OF assms] by simp

theorem unmountApp_destroy_restores_markers_witness:
  "attrs (elements (snd (unmountApp E1 ''shown'' optsDestroy w2)) 0) ''destroy'' = Some ''false''
   \<and> attrs (elements (snd (unmountApp E1 ''shown'' optsDestroy w2)) 0) ''destory'' = Some ''old''
   \<and> filter is_attr_op (since w2 (snd (unmountApp E1 ''shown'' optsDestroy w2))) =
       [SetAttribute 0 ''destroy'' ''true'', RemoveAttribute 0 ''destroy'',
        SetAttribute 0 ''destroy'' ''false'', SetAttribute 0 ''destory'' ''old'']
   \<and> attrs (elements (snd (unmountApp E0 ''shown'' optsDestroy w0)) 0) ''destroy'' = None
   \<and> filter is_attr_op (since w0 (snd (unmountApp E0 ''shown'' optsDestroy w0))) =
       [SetAttribute 0 ''destroy'' ''true'', RemoveAttribute 0 ''destroy'']"
proof -
  note t = unmountApp_destroy_restores_markers [OF _ _ surjective_pairing]
  show ?thesis
    using t [of E1 w2 "''shown''" 0 optsDestroy] t [of E0 w0 "''shown''" 0 optsDestroy]
    by (simp add: demo_simps)
qed

text \<open>
  C10: for a mounted, visible application, \<open>destroy: true\<close> together with
  \<open>clearAliveState: true\<close> behaves exactly as \<open>destroy: true\<close> alone: the destroy marker is
  set and handled, no operation of the call reads or writes the \<open>keep-alive\<close> attribute,
  and the attribute has its old value afterwards.
\<close>

theorem unmountApp_destroy_before_clearAliveState:
  assumes "mounted_visible E w appName c"
    and "optDestroy options" and "optClearAliveState options"
    and "unmountApp E appName options w = (p, w')"
  shows "unmountApp E appName optsDestroy w = (p, w')
       \<and> attrs (elements w' c) ''keep-alive'' = attrs (elements w c) ''keep-alive''
       \<and> SetAttribute c ''destroy'' ''true'' \<in> set (since w w')
       \<and> RemoveAttribute c ''keep-alive'' \<notin> set (since w w')
       \<and> (\<forall>v. SetAttribute c ''keep-alive'' v \<notin> set (since w w'))"
proof -
  have od: "optDestroy optsDestroy"
    by (simp add: optsDestroy_def optDestroy_def)
  have same: "unmountApp E appName optsDestroy w = (p, w')"
    using assms(4)
    unfolding unmountApp_visible_destroy [OF assms(1,2)]
      unmountApp_visible_destroy [OF assms(1) od] .
  note f = visible_destroy_facts [OF assms(1,2,4)]
  have mem: "x \<in> set (filter is_attr_op (since w w'))" if "x \<in> set (since w w')" "is_attr_op x"
    for x using that by simp
  have "SetAttribute c ''destroy'' ''true'' \<in> set (filter is_attr_op (since w w'))"
    unfolding f(3) by simp
  then have a: "SetAttribute c ''destroy'' ''true'' \<in> set (since w w')"
    by simp
  have b: "RemoveAttribute c ''keep-alive'' \<notin> set (since w w')"
  proof
    assume "RemoveAttribute c ''keep-alive'' \<in> set (since w w')"
    then have "RemoveAttribute c ''keep-alive'' \<in> set (filter is_attr_op (since w w'))"
      by (rule mem) simp
    then show False
      unfolding f(3) by (auto split: option.splits)
  qed
  have c: "SetAttribute c ''keep-alive'' v \<notin> set (since w w')" for v
  proof
    assume "SetAttribute c ''keep-alive'' v \<in> set (since w w')"
    then have "SetAttribute c ''keep-alive'' v \<in> set (filter is_attr_op (since w w'))"
      by (rule mem) simp
    then show False
      unfolding f(3) by (auto split: option.splits)
  qed
  show ?thesis
    using same f(1) [of c] a b c by simp
qed

theorem unmountApp_destroy_before_clearAliveState_witness:
  "unmountApp E1 ''shown'' optsDestroy w2 = unmountApp E1 ''shown'' optsBoth w2
   \<and> attrs (elements (snd (unmountApp E1 ''shown'' optsBoth w2)) 0) ''keep-alive'' = Some ''true''
   \<and> SetAttribute 0 ''destroy'' ''true'' \<in> set (since w2 (snd (unmountApp E1 ''shown'' optsBoth w2)))
   \<and> RemoveAttribute 0 ''keep-alive'' \<notin> set (since w2 (snd (unmountApp E1 ''shown'' optsBoth w2)))"
  using unmountApp_destroy_before_clearAliveState
          [OF _ _ _ surjective_pairing, of E1 w2 "''shown''" 0 optsBoth]
  by (simp add: demo_simps)

section \<open>Waiting for the container's event\<close>

lemma run_handler_listeners:
  "listeners (elements (run_handler h w) d) =
     (case h of
        UnmountHandler q e \<Rightarrow>
          (if d = e then removeAll (own_afterhidden q e)
                           (removeAll (own_unmount q e) (listeners (elements w d)))
           else listeners (elements w d))
      | AfterhiddenHandler q e \<Rightarrow>
          (if d = e then removeAll (own_afterhidden q e)
                           (removeAll (own_unmount q e) (listeners (elements w d)))
           else listeners (elements w d)))"
  by (cases h) (simp_all add: own_unmount_def own_afterhidden_def)

lemma run_handler_promises:
  "promises (run_handler h w) =
     (if promises w (hpid h) = Some Pending then (promises w)(hpid h := Some Fulfilled)
      else promises w)"
  by (cases h) simp_all

lemma run_handler_trace:
  "\<exists>c. trace (run_handler h w) =
         trace w @ [RemoveEventListener c ''unmount'' (UnmountHandler (hpid h) c),
                    RemoveEventListener c ''afterhidden'' (AfterhiddenHandler (hpid h) c),
                    Resolve (hpid h)]"
  by (cases h) simp_all

lemma run_handler_listeners_subset:
  "set (listeners (elements (run_handler h w) d)) \<subseteq> set (listeners (elements w d))"
  by (cases h) auto

lemma run_handler_listeners_other:
  assumes "(t, g) \<in> set (listeners (elements w d))" and "hpid g \<noteq> hpid h"
  shows "(t, g) \<in> set (listeners (elements (run_handler h w) d))"
  using assms by (cases h; cases g) auto

lemma run_handler_promises_other:
  "hpid h \<noteq> p \<Longrightarrow> promises (run_handler h w) p = promises w p"
  by (simp add: run_handler_promises)

lemma run_handler_count_other:
  "hpid h \<noteq> p \<Longrightarrow>
   count_list (trace (run_handler h w)) (Resolve p) = count_list (trace w) (Resolve p)"
  by (cases h) auto

lemma armed_other:
  assumes "armed p c w" and "hpid h \<noteq> p"
  shows "armed p c (run_handler h w)"
proof -
  have n: "hpid (snd (own_unmount p c)) \<noteq> hpid h" "hpid (snd (own_afterhidden p c)) \<noteq> hpid h"
    using assms(2) by (simp_all add: own_unmount_def own_afterhidden_def)
  have 1: "own_unmount p c \<in> set (listeners (elements (run_handler h w) c))"
    using run_handler_listeners_other [of "fst (own_unmount p c)" "snd (own_unmount p c)" w c h]
      assms(1) n(1) by (simp add: armed_def)
  have 2: "own_afterhidden p c \<in> set (listeners (elements (run_handler h w) c))"
    using run_handler_listeners_other
      [of "fst (own_afterhidden p c)" "snd (own_afterhidden p c)" w c h]
      assms(1) n(2) by (simp add: armed_def)
  have 3: "d = c \<and> ((t, g) = own_unmount p c \<or> (t, g) = own_afterhidden p c)"
    if "(t, g) \<in> set (listeners (elements (run_handler h w) d))" "hpid g = p" for d t g
  proof -
    have "(t, g) \<in> set (listeners (elements w d))"
      using that(1) run_handler_listeners_subset by blast
    then show ?thesis
      using assms(1) that(2) unfolding armed_def by blast
  qed
  have 4: "promises (run_handler h w) p = Some Pending"
    using assms by (simp add: run_handler_promises_other armed_def)
  have "count_list (trace (run_handler h w)) (Resolve p) = 0"
    using assms by (simp add: run_handler_count_other armed_def)
  then have 5: "Resolve p \<notin> set (trace (run_handler h w))"
    by (simp add: count_list_0_iff)
  show ?thesis
    unfolding armed_def using 1 2 3 4 5 by blast
qed

lemma settled_other:
  assumes "settled p w" and "hpid h \<noteq> p"
  shows "settled p (run_handler h w)"
proof -
  have 1: "hpid g \<noteq> p" if "(t, g) \<in> set (listeners (elements (run_handler h w) d))" for d t g
  proof -
    have "(t, g) \<in> set (listeners (elements w d))"
      using that run_handler_listeners_subset by blast
    then show ?thesis
      using assms(1) unfolding settled_def by blast
  qed
  have 2: "promises (run_handler h w) p = Some Fulfilled"
    using assms by (simp add: run_handler_promises_other settled_def)
  have 3: "count_list (trace (run_handler h w)) (Resolve p) = 1"
    using assms by (simp add: run_handler_count_other settled_def)
  show ?thesis
    unfolding settled_def using 1 2 3 by blast
qed

lemma armed_own:
  assumes "armed p c w" and "h = UnmountHandler p c \<or> h = AfterhiddenHandler p c"
  shows "settled p (run_handler h w)"
proof -
  have c0: "count_list (trace w) (Resolve p) = 0"
    using assms(1) by (simp add: armed_def)
  have pe: "promises w p = Some Pending"
    using assms(1) by (simp add: armed_def)
  have only: "d = c \<and> ((t, g) = own_unmount p c \<or> (t, g) = own_afterhidden p c)"
    if "(t, g) \<in> set (listeners (elements w d))" "hpid g = p" for d t g
    using assms(1) that unfolding armed_def by blast
  have ls: "listeners (elements (run_handler h w) d) =
              (if d = c then removeAll (own_afterhidden p c)
                               (removeAll (own_unmount p c) (listeners (elements w d)))
               else listeners (elements w d))" for d
    using assms(2) by (auto simp: run_handler_listeners)
  have 1: "hpid g \<noteq> p" if m: "(t, g) \<in> set (listeners (elements (run_handler h w) d))"
    for d t g
  proof
    assume g: "hpid g = p"
    have "(t, g) \<in> set (listeners (elements w d))"
      using m unfolding ls by (simp split: if_splits)
    from only [OF this g] have "d = c"
      and "(t, g) = own_unmount p c \<or> (t, g) = own_afterhidden p c"
      by simp_all
    with m show False
      unfolding ls by auto
  qed
  have 2: "promises (run_handler h w) p = Some Fulfilled"
    using assms(2) pe by (auto simp: run_handler_promises)
  have 3: "count_list (trace (run_handler h w)) (Resolve p) = 1"
    using assms(2) c0 by auto
  show ?thesis
    unfolding settled_def using 1 2 3 by blast
qed

lemma settled_invoke:
  assumes "settled p w"
  shows "settled p (invoke d t w h)"
proof (cases "(t, h) \<in> set (listeners (elements w d))")
  case True
  then have "hpid h \<noteq> p"
    using assms unfolding settled_def by blast
  then show ?thesis
    using True assms by (simp add: invoke_def settled_other)
next
  case False
  then show ?thesis using assms by (simp add: invoke_def)
qed

lemma armed_invoke:
  assumes "armed p c w"
  shows "(if (t, h) \<in> set (listeners (elements w d)) \<and> hpid h = p
          then settled p (invoke d t w h) else armed p c (invoke d t w h))"
proof (cases "(t, h) \<in> set (listeners (elements w d))")
  case False
  then show ?thesis using assms by (simp add: invoke_def)
next
  case True
  show ?thesis
  proof (cases "hpid h = p")
    case False
    then show ?thesis using assms True by (simp add: invoke_def armed_other)
  next
    case p: True
    have "(t, h) = own_unmount p c \<or> (t, h) = own_afterhidden p c"
      using assms True p unfolding armed_def by blast
    then have "h = UnmountHandler p c \<or> h = AfterhiddenHandler p c"
      by (auto simp: own_unmount_def own_afterhidden_def)
    then show ?thesis
      using True p armed_own [OF assms] by (simp add: invoke_def)
  qed
qed

lemma settled_foldl_invoke: "settled p w \<Longrightarrow> settled p (foldl (invoke d t) w hs)"
  by (induction hs arbitrary: w) (simp_all add: settled_invoke)

lemma armed_foldl_invoke_other:
  "armed p c w \<Longrightarrow> \<forall>h \<in> set hs. hpid h \<noteq> p \<Longrightarrow> armed p c (foldl (invoke d t) w hs)"
proof (induction hs arbitrary: w)
  case Nil
  then show ?case by simp
next
  case (Cons h hs)
  have "armed p c (invoke d t w h)"
    using armed_invoke [OF Cons.prems(1), of t h d] Cons.prems(2) by simp
  then show ?case
    using Cons.IH Cons.prems(2) by simp
qed

lemma armed_foldl_invoke_own:
  assumes "(t, g) = own_unmount p c \<or> (t, g) = own_afterhidden p c"
  shows "armed p c w \<or> settled p w \<Longrightarrow> g \<in> set hs \<Longrightarrow>
         settled p (foldl (invoke c t) w hs)"
proof (induction hs arbitrary: w)
  case Nil
  then show ?case by simp
next
  case (Cons h hs)
  have gp: "hpid g = p"
    using assms by (auto simp: own_unmount_def own_afterhidden_def)
  have step: "armed p c (invoke c t w h) \<or> settled p (invoke c t w h)"
    using Cons.prems(1) armed_invoke [of p c w t h c] settled_invoke [of p w c t h]
    by (auto split: if_splits)
  show ?case
  proof (cases "h = g")
    case True
    have "settled p (invoke c t w h)"
    proof (cases "settled p w")
      case True
      then show ?thesis by (rule settled_invoke)
    next
      case False
      then have a: "armed p c w" using Cons.prems(1) by simp
      have "(t, h) \<in> set (listeners (elements w c))"
        using a assms \<open>h = g\<close> unfolding armed_def by auto
      then show ?thesis
        using armed_invoke [OF a, of t h c] gp \<open>h = g\<close> by simp
    qed
    then show ?thesis
      by (simp add: settled_foldl_invoke)
  next
    case False
    then have "g \<in> set hs" using Cons.prems(2) by simp
    from Cons.IH [OF step this] show ?thesis by simp
  qed
qed

text \<open>
  An operation that leaves the listeners and the promises alone and records no call of
  \<open>resolve\<close> keeps both conditions.
\<close>

lemma armed_frame:
  assumes "armed p c w"
    and "\<And>d. listeners (elements w' d) = listeners (elements w d)"
    and "promises w' = promises w"
    and "trace w' = trace w @ xs" and "Resolve p \<notin> set xs"
  shows "armed p c w'"
proof -
  have "Resolve p \<notin> set (trace w')"
    using assms(1,5) by (simp add: assms(4) armed_def)
  then show ?thesis
    using assms(1) unfolding armed_def assms(2,3) by blast
qed

lemma settled_frame:
  assumes "settled p w"
    and "\<And>d. listeners (elements w' d) = listeners (elements w d)"
    and "promises w' = promises w"
    and "trace w' = trace w @ xs" and "Resolve p \<notin> set xs"
  shows "settled p w'"
proof -
  have "count_list xs (Resolve p) = 0"
    using assms(5) by (simp add: count_list_0_iff)
  then show ?thesis
    using assms(1) unfolding settled_def assms(2,3,4) by simp
qed

lemma armed_log: "armed p c w \<Longrightarrow> x \<noteq> Resolve p \<Longrightarrow> armed p c (log x w)"
  by (rule armed_frame [where xs = "[x]"]) simp_all

lemma settled_log: "settled p w \<Longrightarrow> x \<noteq> Resolve p \<Longrightarrow> settled p (log x w)"
  by (rule settled_frame [where xs = "[x]"]) simp_all

lemma settled_dispatchEvent: "settled p w \<Longrightarrow> settled p (dispatchEvent d t w)"
  unfolding dispatchEvent_def
  by (intro settled_foldl_invoke settled_log) simp_all

lemma armed_dispatchEvent:
  assumes "armed p c w"
  shows "(if d = c \<and> terminal t then settled p (dispatchEvent d t w)
          else armed p c (dispatchEvent d t w))"
proof (cases "d = c \<and> terminal t")
  case True
  define g where "g = (if t = ''unmount'' then UnmountHandler p c else AfterhiddenHandler p c)"
  have own: "(t, g) = own_unmount p c \<or> (t, g) = own_afterhidden p c"
    using True by (auto simp: g_def terminal_def own_unmount_def own_afterhidden_def)
  have "(t, g) \<in> set (listeners (elements w c))"
    using own assms unfolding armed_def by auto
  then have m: "g \<in> set (map snd (filter (\<lambda>l. fst l = t) (listeners (elements w c))))"
    by force
  have "armed p c (log (DispatchEvent c t) w)"
    using assms by (simp add: armed_log)
  then have "settled p (foldl (invoke c t) (log (DispatchEvent c t) w)
               (map snd (filter (\<lambda>l. fst l = t) (listeners (elements w c)))))"
    using armed_foldl_invoke_own [OF own _ m] by blast
  then show ?thesis
    using True by (simp add: dispatchEvent_def)
next
  case False
  have "hpid h \<noteq> p"
    if "h \<in> set (map snd (filter (\<lambda>l. fst l = t) (listeners (elements w d))))" for h
  proof
    assume hp: "hpid h = p"
    have "(t, h) \<in> set (listeners (elements w d))"
      using that by auto
    then have "d = c \<and> ((t, h) = own_unmount p c \<or> (t, h) = own_afterhidden p c)"
      using assms hp unfolding armed_def by blast
    then show False
      using False by (auto simp: terminal_def own_unmount_def own_afterhidden_def)
  qed
  then have "armed p c (foldl (invoke d t) (log (DispatchEvent d t) w)
               (map snd (filter (\<lambda>l. fst l = t) (listeners (elements w d)))))"
    using assms by (intro armed_foldl_invoke_other armed_log) simp_all
  then have "armed p c (dispatchEvent d t w)"
    by (simp add: dispatchEvent_def)
  then show ?thesis
    using False by presburger
qed

lemma settled_fire: "settled p w \<Longrightarrow> settled p (fire evs w)"
  by (induction evs arbitrary: w) (auto simp: settled_dispatchEvent)

lemma armed_fire:
  "armed p c w \<Longrightarrow> (if hit c evs then settled p (fire evs w) else armed p c (fire evs w))"
proof (induction evs arbitrary: w)
  case Nil
  then show ?case by (simp add: hit_def)
next
  case (Cons e evs)
  obtain d t where e: "e = (d, t)" by (cases e)
  show ?case
  proof (cases "d = c \<and> terminal t")
    case True
    then have "settled p (dispatchEvent d t w)"
      using armed_dispatchEvent [OF Cons.prems, of d t] by simp
    then show ?thesis
      using True by (simp add: e hit_def settled_fire)
  next
    case False
    then have "armed p c (dispatchEvent d t w)"
      using armed_dispatchEvent [OF Cons.prems, of d t] by simp
    moreover have "hit c (e # evs) = hit c evs"
      using False by (auto simp: e hit_def)
    ultimately show ?thesis
      using Cons.IH [of "dispatchEvent d t w"] by (simp add: e)
  qed
qed

lemma emit_all_fire: "emit_all c ts w = fire (map (Pair c) ts) w"
  by (induction ts arbitrary: w) simp_all

lemma hit_emit: "hit c (map (Pair c) ts) = list_ex terminal ts"
  by (induction ts) (simp_all add: hit_def)

lemma attachHandlers_listeners:
  "listeners (elements (attachHandlers p c w) d) =
     (if d = c then
        (let l1 = (if own_unmount p c \<in> set (listeners (elements w c))
                   then listeners (elements w c)
                   else listeners (elements w c) @ [own_unmount p c])
         in if own_afterhidden p c \<in> set l1 then l1 else l1 @ [own_afterhidden p c])
      else listeners (elements w d))"
  by (simp add: attachHandlers_def Let_def own_unmount_def own_afterhidden_def)

lemma armed_attach:
  assumes "fresh w"
  shows "armed (nextPid w) c (attachHandlers (nextPid w) c (called w n))"
proof -
  let ?p = "nextPid w"
  have no: "hpid h \<noteq> ?p" if "(t, h) \<in> set (listeners (elements w d))" for d t h
    using assms that unfolding fresh_def by blast
  have u: "own_unmount ?p c \<notin> set (listeners (elements w c))"
    using no [of "''unmount''" "UnmountHandler ?p c" c] by (auto simp: own_unmount_def)
  have a: "own_afterhidden ?p c \<notin> set (listeners (elements w c))"
    using no [of "''afterhidden''" "AfterhiddenHandler ?p c" c]
    by (auto simp: own_afterhidden_def)
  have ne: "own_afterhidden ?p c \<noteq> own_unmount ?p c"
    by (simp add: own_unmount_def own_afterhidden_def)
  have ls: "listeners (elements (attachHandlers ?p c (called w n)) d) =
              (if d = c then listeners (elements w c) @ [own_unmount ?p c, own_afterhidden ?p c]
               else listeners (elements w d))" for d
    using u a ne by (simp add: attachHandlers_listeners Let_def)
  have 3: "d = c \<and> ((t, h) = own_unmount ?p c \<or> (t, h) = own_afterhidden ?p c)"
    if "(t, h) \<in> set (listeners (elements (attachHandlers ?p c (called w n)) d))"
      "hpid h = ?p" for d t h
    using that no [of t h d] unfolding ls by (auto split: if_splits)
  have 4: "promises (attachHandlers ?p c (called w n)) ?p = Some Pending"
    by simp
  have 5: "Resolve ?p \<notin> set (trace (attachHandlers ?p c (called w n)))"
    using assms by (simp add: fresh_def)
  show ?thesis
    unfolding armed_def using ls [of c] 3 4 5 by auto
qed

lemma stage_setAttribute:
  "armed p c w \<Longrightarrow> armed p c (setAttribute d n v w)"
  "settled p w \<Longrightarrow> settled p (setAttribute d n v w)"
  by (erule armed_frame [where xs = "[SetAttribute d n v]"]; simp)
    (erule settled_frame [where xs = "[SetAttribute d n v]"]; simp)

lemma stage_removeAttribute:
  "armed p c w \<Longrightarrow> armed p c (removeAttribute d n w)"
  "settled p w \<Longrightarrow> settled p (removeAttribute d n w)"
  by (erule armed_frame [where xs = "[RemoveAttribute d n]"]; simp)
    (erule settled_frame [where xs = "[RemoveAttribute d n]"]; simp)

lemma stage_detach:
  "armed p c w \<Longrightarrow> armed p c (detach d w)"
  "settled p w \<Longrightarrow> settled p (detach d w)"
  by (erule armed_frame [where xs = "[RemoveChild d]"]; simp)
    (erule settled_frame [where xs = "[RemoveChild d]"]; simp)

lemma stage_restoreAttribute:
  "armed p c w \<Longrightarrow> armed p c (restoreAttribute d n x w)"
  "settled p w \<Longrightarrow> settled p (restoreAttribute d n x w)"
  by (cases x; simp add: restoreAttribute_def stage_setAttribute)+

lemma stage_emit_all:
  "armed p c w \<Longrightarrow>
   (if list_ex terminal ts then settled p (emit_all c ts w) else armed p c (emit_all c ts w))"
  "settled p w \<Longrightarrow> settled p (emit_all c ts w)"
  using armed_fire [of p c w "map (Pair c) ts"] settled_fire [of p w "map (Pair c) ts"]
  by (simp_all add: emit_all_fire hit_emit)

lemmas stage_simps = stage_setAttribute stage_removeAttribute stage_detach
  stage_restoreAttribute

text \<open>
  The state in which a call for a mounted, visible application returns: resolved when
  the element has emitted a terminal event while it was removed, waiting otherwise.
\<close>

lemma visible_stage:
  assumes "mounted_visible E w appName c" and "fresh w"
    and "unmountApp E appName options w = (p, w')"
  shows "p = nextPid w"
    and "(if list_ex terminal (emitsOnRemove E c) then settled p w' else armed p c w')"
proof -
  let ?p = "nextPid w"
  let ?ts = "emitsOnRemove E c"
  let ?w1 = "attachHandlers ?p c (called w appName)"
  have at: "attached (elements (called w appName) c)"
    using assms(1) by (auto simp: mounted_visible_def split: option.splits)
  have eq: "(p, w') = (?p, final (unmountVisible E ?p c options (called w appName)))"
    using assms(3) unfolding unmountApp_visible [OF assms(1)] called_def [symmetric]
      unmountVisible_attached [OF at] by simp
  then show p: "p = nextPid w"
    by simp
  have w': "w' = final (unmountVisible E ?p c options (called w appName))"
    using eq by simp
  have a1: "armed ?p c ?w1"
    by (rule armed_attach [OF assms(2)])
  have mid: "(if list_ex terminal ?ts then settled ?p (emit_all c ?ts v)
              else armed ?p c (emit_all c ?ts v))" if "armed ?p c v" for v
    using that by (rule stage_emit_all)
  show "(if list_ex terminal ?ts then settled p w' else armed p c w')"
  proof (cases "list_ex terminal ?ts")
    case True
    have s: "settled ?p (emit_all c ?ts v)" if "armed ?p c v" for v
      using mid [OF that] True by simp
    have "settled ?p w'"
      unfolding w' unmountVisible_attached [OF at]
      by (auto intro!: stage_simps s a1)
    then show ?thesis using True p by simp
  next
    case False
    have s: "armed ?p c (emit_all c ?ts v)" if "armed ?p c v" for v
      using mid [OF that] False by simp
    have "armed ?p c w'"
      unfolding w' unmountVisible_attached [OF at]
      by (auto intro!: stage_simps s a1)
    then show ?thesis using False p by simp
  qed
qed

lemma visible_order:
  assumes "mounted_visible E w appName c"
    and "unmountApp E appName options w = (p, w')"
  shows "\<exists>pre rest.
           since w w' = Call p appName
                        # AddEventListener c ''unmount'' (UnmountHandler p c)
                        # AddEventListener c ''afterhidden'' (AfterhiddenHandler p c)
                        # pre @ RemoveChild c # rest
           \<and> list_all is_attr_op pre"
proof -
  let ?p = "nextPid w"
  let ?w1 = "attachHandlers ?p c (called w appName)"
  have at: "attached (elements (called w appName) c)"
    using assms(1) by (auto simp: mounted_visible_def split: option.splits)
  have eq: "(p, w') = (?p, final (unmountVisible E ?p c options (called w appName)))"
    using assms(2) unfolding unmountApp_visible [OF assms(1)] called_def [symmetric]
      unmountVisible_attached [OF at] by simp
  then have p: "p = ?p" and w': "w' = final (unmountVisible E ?p c options (called w appName))"
    by simp_all
  have "\<exists>pre rest. trace w' = trace w @ Call ?p appName
                        # AddEventListener c ''unmount'' (UnmountHandler ?p c)
                        # AddEventListener c ''afterhidden'' (AfterhiddenHandler ?p c)
                        # pre @ RemoveChild c # rest
           \<and> list_all is_attr_op pre"
  proof (cases "optDestroy options")
    case True
    show ?thesis
      unfolding w' unmountVisible_attached [OF at]
      by (rule exI [of _ "[SetAttribute c ''destroy'' ''true'']"])
        (simp add: True trace_emit_all_since)
  next
    case False
    show ?thesis
    proof (cases "optClearAliveState options \<and> attrs (elements w c) ''keep-alive'' \<noteq> None")
      case True
      show ?thesis
        unfolding w' unmountVisible_attached [OF at]
        by (rule exI [of _ "[RemoveAttribute c ''keep-alive'']"])
          (simp add: True False trace_emit_all_since)
    next
      case nc: False
      show ?thesis
        unfolding w' unmountVisible_attached [OF at]
        by (rule exI [of _ "[]"]) (use nc False in \<open>auto simp: trace_emit_all_since\<close>)
    qed
  qed
  then obtain pre rest where
    "trace w' = trace w @ Call ?p appName
                  # AddEventListener c ''unmount'' (UnmountHandler ?p c)
                  # AddEventListener c ''afterhidden'' (AfterhiddenHandler ?p c)
                  # pre @ RemoveChild c # rest" and "list_all is_attr_op pre"
    by blast
  then show ?thesis
    using since_append p by blast
qed

text \<open>
  C7 (amended): for a mounted, visible application \<open>unmountApp\<close> attaches the listeners
  for \<open>unmount\<close> and \<open>afterhidden\<close> before it asks for the removal of the container, with
  only attribute writes in between. Whatever events are dispatched afterwards, the
  promise is pending and \<open>resolve\<close> has not been called as long as the container has
  emitted neither event; once it has emitted one, the promise is fulfilled, \<open>resolve\<close>
  has been called exactly once, and no listener of the call is left on any element.
\<close>

theorem unmountApp_visible_waits_for_event:
  assumes "mounted_visible E w appName c" and "fresh w"
    and "unmountApp E appName options w = (p, w')"
  shows "(\<exists>pre rest.
            since w w' = Call p appName
                         # AddEventListener c ''unmount'' (UnmountHandler p c)
                         # AddEventListener c ''afterhidden'' (AfterhiddenHandler p c)
                         # pre @ RemoveChild c # rest
            \<and> list_all is_attr_op pre)
       \<and> (list_ex terminal (emitsOnRemove E c) \<or> hit c evs \<longrightarrow>
            promises (fire evs w') p = Some Fulfilled
            \<and> count_list (trace (fire evs w')) (Resolve p) = 1
            \<and> (\<forall>d t h. (t, h) \<in> set (listeners (elements (fire evs w') d))
                        \<longrightarrow> hpid h \<noteq> p))
       \<and> (\<not> (list_ex terminal (emitsOnRemove E c) \<or> hit c evs) \<longrightarrow>
            promises (fire evs w') p = Some Pending
            \<and> Resolve p \<notin> set (trace (fire evs w'))
            \<and> (''unmount'', UnmountHandler p c)
                \<in> set (listeners (elements (fire evs w') c))
            \<and> (''afterhidden'', AfterhiddenHandler p c)
                \<in> set (listeners (elements (fire evs w') c)))"
proof -
  note st = visible_stage(2) [OF assms]
  have stage: "(if list_ex terminal (emitsOnRemove E c) \<or> hit c evs
         then settled p (fire evs w') else armed p c (fire evs w'))"
  proof (cases "list_ex terminal (emitsOnRemove E c)")
    case True
    then have "settled p (fire evs w')"
      using st by (simp add: settled_fire)
    then show ?thesis using True by simp
  next
    case False
    then have "armed p c w'"
      using st by simp
    from armed_fire [OF this, of evs] show ?thesis
      using False by simp
  qed
  have yes: "promises (fire evs w') p = Some Fulfilled
            \<and> count_list (trace (fire evs w')) (Resolve p) = 1
            \<and> (\<forall>d t h. (t, h) \<in> set (listeners (elements (fire evs w') d))
                        \<longrightarrow> hpid h \<noteq> p)"
    if "list_ex terminal (emitsOnRemove E c) \<or> hit c evs"
  proof -
    have "settled p (fire evs w')"
      using stage that by presburger
    then show ?thesis
      unfolding settled_def by blast
  qed
  have no: "promises (fire evs w') p = Some Pending
            \<and> Resolve p \<notin> set (trace (fire evs w'))
            \<and> (''unmount'', UnmountHandler p c)
                \<in> set (listeners (elements (fire evs w') c))
            \<and> (''afterhidden'', AfterhiddenHandler p c)
                \<in> set (listeners (elements (fire evs w') c))"
    if "\<not> (list_ex terminal (emitsOnRemove E c) \<or> hit c evs)"
  proof -
    have "armed p c (fire evs w')"
      using stage that by presburger
    then show ?thesis
      unfolding armed_def own_unmount_def own_afterhidden_def by blast
  qed
  show ?thesis
    using visible_order [OF assms(1,3)] yes no by blast
qed

theorem unmountApp_visible_waits_for_event_witness:
  "promises (snd (unmountApp E0 ''shown'' None w0)) 0 = Some Pending
   \<and> Resolve 0 \<notin> set (trace (snd (unmountApp E0 ''shown'' None w0)))
   \<and> promises (fire [(0, ''afterhidden''), (0, ''unmount'')]
                 (snd (unmountApp E0 ''shown'' None w0))) 0 = Some Fulfilled
   \<and> count_list (trace (fire [(0, ''afterhidden''), (0, ''unmount'')]
                          (snd (unmountApp E0 ''shown'' None w0)))) (Resolve 0) = 1
   \<and> promises (snd (unmountApp E1 ''shown'' optsClear w2)) 0 = Some Fulfilled"
proof -
  have mv: "mounted_visible E0 w0 ''shown'' 0" "mounted_visible E1 w2 ''shown'' 0"
    by (simp_all add: demo_simps)
  have fr: "fresh w0" "fresh w2"
    by (simp_all add: demo_simps fresh_def)
  have n: "\<not> (list_ex terminal (emitsOnRemove E0 0) \<or> hit 0 [])"
    by (simp add: E0_def hit_def)
  have y: "list_ex terminal (emitsOnRemove E0 0)
           \<or> hit 0 [(0, ''afterhidden''), (0, ''unmount'')]"
    by (simp add: hit_def terminal_def)
  have y1: "list_ex terminal (emitsOnRemove E1 0) \<or> hit 0 []"
    by (simp add: E1_def terminal_def)
  have p: "fst (unmountApp E0 ''shown'' None w0) = 0"
    "fst (unmountApp E1 ''shown'' optsClear w2) = 0"
    by (simp_all add: unmountApp_fst w0_def w2_def)
  show ?thesis
    using unmountApp_visible_waits_for_event
            [OF mv(1) fr(1) surjective_pairing, of None "[]"]
      unmountApp_visible_waits_for_event
            [OF mv(1) fr(1) surjective_pairing, of None "[(0, ''afterhidden''), (0, ''unmount'')]"]
      unmountApp_visible_waits_for_event
            [OF mv(2) fr(2) surjective_pairing, of optsClear "[]"]
      n y y1
    unfolding p by (simp only: fire.simps) blast
qed

text \<open>
  A path that does not wait for any event: destroying an application that is already
  \<open>UNMOUNT\<close> resolves the promise inside the call; no event has been dispatched and no
  listener was attached.
\<close>

theorem unmount_resolves_without_event_counterexample:
  "promises (snd (unmountApp E0 ''gone'' optsDestroy w0)) 0 = Some Fulfilled
   \<and> trace (snd (unmountApp E0 ''gone'' optsDestroy w0)) =
       [Call 0 ''gone'', ActionsForCompletelyDestroy ''gone'', Resolve 0]
   \<and> listeners (elements (snd (unmountApp E0 ''gone'' optsDestroy w0)) 0) = []"
  by (simp add: demo_simps unmountApp_def executor_def Let_def
      actionsForCompletelyDestroy_def release_def)

section \<open>Unmounting all applications in turn\<close>

lemma ext_refl: "ext w w"
  by (simp add: ext_def)

lemma ext_trans:
  assumes "ext w v" and "ext v u"
  shows "ext w u"
proof -
  obtain xs where xs: "trace v = trace w @ xs" "\<not> list_ex is_call xs"
    "\<And>q. promises v q = Some Fulfilled \<Longrightarrow> promises w q = Some Fulfilled \<or> Resolve q \<in> set xs"
    using assms(1) unfolding ext_def by blast
  obtain ys where ys: "trace u = trace v @ ys" "\<not> list_ex is_call ys"
    "\<And>q. promises u q = Some Fulfilled \<Longrightarrow> promises v q = Some Fulfilled \<or> Resolve q \<in> set ys"
    using assms(2) unfolding ext_def by blast
  have 1: "trace u = trace w @ (xs @ ys)"
    by (simp add: xs(1) ys(1))
  have 2: "\<not> list_ex is_call (xs @ ys)"
    using xs(2) ys(2) by simp
  have 3: "promises w q = Some Fulfilled \<or> Resolve q \<in> set (xs @ ys)"
    if "promises u q = Some Fulfilled" for q
    using ys(3) [OF that] xs(3) [of q] by auto
  show ?thesis
    unfolding ext_def using 1 2 3 by blast
qed

text \<open>A step that appends \<open>xs\<close> to the trace and fulfils only what \<open>xs\<close> resolves.\<close>

lemma ext_step:
  assumes "ext w v" and "trace u = trace v @ xs" and "\<not> list_ex is_call xs"
    and "\<And>q. promises u q = Some Fulfilled \<Longrightarrow>
              promises v q = Some Fulfilled \<or> Resolve q \<in> set xs"
  shows "ext w u"
proof -
  have "ext v u"
    unfolding ext_def using assms(2,3,4) by blast
  with assms(1) show ?thesis by (rule ext_trans)
qed

lemma ext_log: "ext w v \<Longrightarrow> \<not> is_call x \<Longrightarrow> ext w (log x v)"
  by (rule ext_step [where xs = "[x]"]) auto

lemma ext_resolve: "ext w v \<Longrightarrow> ext w (resolve p v)"
  by (rule ext_step [where xs = "[Resolve p]"]) (auto split: if_splits)

lemma ext_reject: "ext w v \<Longrightarrow> ext w (reject p v)"
  by (rule ext_step [where xs = "[Reject p]"]) (auto split: if_splits)

lemma ext_setAttribute: "ext w v \<Longrightarrow> ext w (setAttribute c n x v)"
  by (rule ext_step [where xs = "[SetAttribute c n x]"]) simp_all

lemma ext_removeAttribute: "ext w v \<Longrightarrow> ext w (removeAttribute c n v)"
  by (rule ext_step [where xs = "[RemoveAttribute c n]"]) simp_all

lemma ext_restoreAttribute: "ext w v \<Longrightarrow> ext w (restoreAttribute c n x v)"
  by (cases x) (simp_all add: restoreAttribute_def ext_setAttribute)

lemma ext_addEventListener: "ext w v \<Longrightarrow> ext w (addEventListener c t h v)"
  by (rule ext_step [where xs = "[AddEventListener c t h]"]) simp_all

lemma ext_removeEventListener: "ext w v \<Longrightarrow> ext w (removeEventListener c t h v)"
  by (rule ext_step [where xs = "[RemoveEventListener c t h]"]) simp_all

lemma ext_attachHandlers: "ext w v \<Longrightarrow> ext w (attachHandlers p c v)"
  by (simp add: attachHandlers_def ext_addEventListener)

lemma ext_detach: "ext w v \<Longrightarrow> ext w (detach c v)"
  by (rule ext_step [where xs = "[RemoveChild c]"]) simp_all

lemma ext_run_handler: "ext w v \<Longrightarrow> ext w (run_handler h v)"
  by (cases h) (simp_all add: ext_resolve ext_removeEventListener)

lemma ext_invoke: "ext w v \<Longrightarrow> ext w (invoke c t v h)"
  by (simp add: invoke_def ext_run_handler)

lemma ext_foldl_invoke: "ext w v \<Longrightarrow> ext w (foldl (invoke c t) v hs)"
  by (induction hs arbitrary: v) (simp_all add: ext_invoke)

lemma ext_dispatchEvent: "ext w v \<Longrightarrow> ext w (dispatchEvent c t v)"
  by (simp add: dispatchEvent_def ext_foldl_invoke ext_log)

lemma ext_emit_all: "ext w v \<Longrightarrow> ext w (emit_all c ts v)"
  by (induction ts arbitrary: v) (simp_all add: ext_dispatchEvent)

lemma ext_fields:
  assumes "ext w v" and "trace u = trace v" and "promises u = promises v"
  shows "ext w u"
  by (rule ext_step [OF assms(1), where xs = "[]"]) (simp_all add: assms)

lemma ext_release: "ext w v \<Longrightarrow> ext w (release k v)"
  by (erule ext_fields) (simp_all add: release_def)

lemma ext_actionsForCompletelyDestroy: "ext w v \<Longrightarrow> ext w (actionsForCompletelyDestroy k v)"
  by (simp add: actionsForCompletelyDestroy_def ext_release ext_log)

lemma ext_registry: "ext w v \<Longrightarrow> ext w (v\<lparr>appInstanceMap := m\<rparr>)"
  by (erule ext_fields) simp_all

lemma ext_app_unmount:
  assumes "ext w v"
  shows "ext w (app_unmount k d p v)"
proof -
  define v2 where "v2 =
    (if d then release k (log (AppUnmount k d) v)
     else (log (AppUnmount k d) v)\<lparr>appInstanceMap :=
            map_modify (appInstanceMap (log (AppUnmount k d) v)) k
              (\<lambda>a. a\<lparr>appState := UNMOUNT, keepAliveState := NONE, container := None\<rparr>)\<rparr>)"
  have "ext w (log (AppUnmount k d) v)"
    using assms by (simp add: ext_log)
  then have "ext w v2"
    unfolding v2_def by (cases d) (simp_all only: if_True if_False ext_release ext_registry)
  then have "ext w (case c of None \<Rightarrow> v2 | Some c' \<Rightarrow> dispatchEvent c' ''unmount'' v2)" for c
    by (cases c) (simp_all add: ext_dispatchEvent)
  then show ?thesis
    unfolding app_unmount_def Let_def v2_def by (intro ext_resolve)
qed

lemma ext_removeChild: "ext w v \<Longrightarrow> removeChild E c v = Some u \<Longrightarrow> ext w u"
  by (auto simp: removeChild_def ext_emit_all ext_detach split: if_splits)

lemma ext_destroyBranch: "ext w v \<Longrightarrow> ext w (final (destroyBranch E c v))"
  unfolding destroyBranch_def Let_def
  by (auto split: option.splits
      intro!: ext_restoreAttribute ext_removeAttribute ext_setAttribute
      intro: ext_removeChild)

lemma ext_clearAliveBranch: "ext w v \<Longrightarrow> ext w (final (clearAliveBranch E c v))"
  unfolding clearAliveBranch_def Let_def
  by (auto split: option.splits
      intro!: ext_restoreAttribute ext_removeAttribute
      intro: ext_removeChild)

lemma ext_detachBranch: "ext w v \<Longrightarrow> ext w (final (detachBranch E c v))"
  unfolding detachBranch_def
  by (auto split: option.splits intro: ext_removeChild)

lemma ext_unmountVisible: "ext w v \<Longrightarrow> ext w (final (unmountVisible E p c options v))"
  unfolding unmountVisible_def Let_def
  by (simp add: ext_destroyBranch ext_clearAliveBranch ext_detachBranch ext_attachHandlers)

lemma ext_executor: "ext w v \<Longrightarrow> ext w (final (executor E p k n options v))"
  unfolding executor_def
  by (auto split: option.splits
      simp: ext_unmountVisible ext_app_unmount ext_resolve ext_actionsForCompletelyDestroy
        logWarn_def ext_log)

lemma ext_settle: "ext w (final r) \<Longrightarrow> ext w (settle p r)"
  by (cases r) (simp_all add: ext_reject)

lemma ext_unmountApp: "ext (called w n) (snd (unmountApp E n options w))"
  unfolding unmountApp_def Let_def called_def [symmetric] snd_conv
  by (intro ext_settle ext_executor ext_refl)

lemma calls_append: "calls (xs @ ys) = calls xs @ calls ys"
  by (induction xs rule: calls.induct) simp_all

lemma calls_nocall: "\<not> list_ex is_call xs \<Longrightarrow> calls xs = []"
  by (induction xs rule: calls.induct) simp_all

lemma outstanding_append:
  "outstanding cur (xs @ ys) = outstanding (outstanding cur xs) ys"
  by (induction cur xs rule: outstanding.induct) simp_all

lemma gated_append:
  "gated cur (xs @ ys) = (gated cur xs \<and> gated (outstanding cur xs) ys)"
  by (induction cur xs rule: gated.induct) simp_all

lemma gated_nocall: "\<not> list_ex is_call xs \<Longrightarrow> gated cur xs"
  by (induction cur xs rule: gated.induct) simp_all

lemma outstanding_nocall:
  "\<not> list_ex is_call xs \<Longrightarrow>
   outstanding cur xs =
     (case cur of None \<Rightarrow> None
      | Some q \<Rightarrow> if Resolve q \<in> set xs then None else Some q)"
  by (induction cur xs rule: outstanding.induct) (auto split: option.splits)

lemma gated_resolved:
  "gated (Some p) ys \<Longrightarrow> outstanding (Some p) ys = None \<Longrightarrow> Resolve p \<in> set ys"
proof (induction ys)
  case Nil
  then show ?case by simp
next
  case (Cons y ys)
  then show ?case by (cases y) (auto split: if_splits)
qed

lemma gated_between:
  assumes "gated cur (xs @ Call p n # ys @ Call p' n' # zs)"
  shows "Resolve p \<in> set ys"
proof -
  have "gated (Some p) (ys @ Call p' n' # zs)"
    using assms by (simp add: gated_append)
  then have "gated (Some p) ys" and "outstanding (Some p) ys = None"
    by (simp_all add: gated_append)
  then show ?thesis by (rule gated_resolved)
qed

lemma K_ext:
  assumes "K n0 a w" and "ext w w'"
  shows "K n0 a w'"
proof -
  obtain xs where xs: "trace w' = trace w @ xs" "\<not> list_ex is_call xs"
    "\<And>q. promises w' q = Some Fulfilled \<Longrightarrow> promises w q = Some Fulfilled \<or> Resolve q \<in> set xs"
    using assms(2) unfolding ext_def by blast
  let ?t = "drop n0 (trace w)"
  have n: "n0 \<le> length (trace w)" and g: "gated None ?t"
    and o: "\<And>q. outstanding None ?t = Some q \<Longrightarrow> a = Some q \<and> promises w q \<noteq> Some Fulfilled"
    using assms(1) unfolding K_def by blast+
  have d: "drop n0 (trace w') = ?t @ xs"
    using n by (simp add: xs(1))
  have 1: "gated None (drop n0 (trace w'))"
    unfolding d by (simp add: gated_append g gated_nocall [OF xs(2)])
  have 2: "a = Some q \<and> promises w' q \<noteq> Some Fulfilled"
    if "outstanding None (drop n0 (trace w')) = Some q" for q
  proof -
    have e: "outstanding (outstanding None ?t) xs = Some q"
      using that unfolding d outstanding_append .
    then have "outstanding None ?t = Some q \<and> Resolve q \<notin> set xs"
      unfolding outstanding_nocall [OF xs(2)] by (auto split: option.splits if_splits)
    then show ?thesis
      using o [of q] xs(3) [of q] by blast
  qed
  show ?thesis
    unfolding K_def using n 1 2 by (simp add: xs(1))
qed

lemma K_called:
  assumes "K n0 a w" and "outstanding None (drop n0 (trace w)) = None"
  shows "K n0 (Some (nextPid w)) (called w n)"
proof -
  have n: "n0 \<le> length (trace w)" and g: "gated None (drop n0 (trace w))"
    using assms(1) unfolding K_def by blast+
  have d: "drop n0 (trace (called w n)) = drop n0 (trace w) @ [Call (nextPid w) n]"
    using n by simp
  show ?thesis
    unfolding K_def d using n g assms(2)
    by (simp add: gated_append outstanding_append)
qed

lemma ready_idle:
  assumes "K n0 (awaiting ch) w" and "chain_ready w ch"
  shows "outstanding None (drop n0 (trace w)) = None"
proof (cases "outstanding None (drop n0 (trace w))")
  case None
  then show ?thesis .
next
  case (Some q)
  then have "awaiting ch = Some q \<and> promises w q \<noteq> Some Fulfilled"
    using assms(1) unfolding K_def by blast
  then show ?thesis
    using assms(2) by (simp add: chain_ready_def)
qed

lemma ext_length: "ext w w' \<Longrightarrow> \<exists>xs. trace w' = trace w @ xs \<and> calls xs = []"
  unfolding ext_def using calls_nocall by blast

lemma Inv_emit:
  assumes "Inv n0 names (ch, w)"
  shows "Inv n0 names (ch, dispatchEvent c t w)"
proof -
  have e: "ext w (dispatchEvent c t w)"
    by (intro ext_dispatchEvent ext_refl)
  obtain xs where xs: "trace (dispatchEvent c t w) = trace w @ xs" "calls xs = []"
    using ext_length [OF e] by blast
  have n: "n0 \<le> length (trace w)"
    using assms unfolding Inv_def K_def by simp
  show ?thesis
    using assms K_ext [OF _ e] n unfolding Inv_def
    by (simp add: xs calls_append)
qed

lemma Inv_microtask:
  assumes "Inv n0 names (ch, w)"
  shows "Inv n0 names (microtask E (ch, w))"
proof (cases "chain_ready w ch")
  case False
  then show ?thesis using assms by (simp add: microtask_def)
next
  case True
  show ?thesis
  proof (cases "remaining ch")
    case Nil
    then show ?thesis using assms True by (simp add: microtask_def)
  next
    case (Cons nm names')
    define r where "r = unmountApp E nm (chainOptions ch) w"
    have m: "microtask E (ch, w) = (ch\<lparr>remaining := names', awaiting := Some (fst r)\<rparr>, snd r)"
      using True Cons by (simp add: microtask_def r_def split: prod.splits)
    have k: "K n0 (awaiting ch) w"
      and c: "calls (drop n0 (trace w)) @ remaining ch = names"
      using assms unfolding Inv_def by simp_all
    have n: "n0 \<le> length (trace w)"
      using k unfolding K_def by simp
    have p: "fst r = nextPid w"
      by (simp add: r_def unmountApp_fst)
    have e: "ext (called w nm) (snd r)"
      unfolding r_def by (rule ext_unmountApp)
    have k': "K n0 (Some (fst r)) (snd r)"
      unfolding p using K_called [OF k ready_idle [OF k True]] e by (rule K_ext)
    obtain xs where xs: "trace (snd r) = trace (called w nm) @ xs" "calls xs = []"
      using ext_length [OF e] by blast
    have "calls (drop n0 (trace (snd r))) = calls (drop n0 (trace w)) @ [nm]"
      using n by (simp add: xs calls_append)
    then show ?thesis
      unfolding m Inv_def using k' c Cons by simp
  qed
qed

lemma Inv_step: "Inv n0 names s \<Longrightarrow> Inv n0 names (step E s x)"
  by (cases s; cases x) (simp_all add: Inv_microtask Inv_emit)

lemma Inv_run: "Inv n0 names s \<Longrightarrow> Inv n0 names (run E sch s)"
  unfolding run_def by (induction sch arbitrary: s) (simp_all add: Inv_step)

lemma Inv_start:
  "Inv (length (trace w)) (getAllApps (appInstanceMap w)) (unmountAllApps options w, w)"
  by (simp add: Inv_def K_def unmountAllApps_def)

lemma well_formed_fresh: "well_formed w \<Longrightarrow> fresh w"
  unfolding well_formed_def fresh_def by fastforce

lemma wf_step:
  assumes "well_formed w" and "nextPid w' = nextPid w"
    and "\<And>d t h. (t, h) \<in> set (listeners (elements w' d)) \<Longrightarrow>
           (t, h) \<in> set (listeners (elements w d)) \<or> hpid h < nextPid w"
    and "trace w' = trace w @ xs"
    and "\<And>q. Resolve q \<in> set xs \<Longrightarrow> q < nextPid w"
  shows "well_formed w'"
proof -
  have 1: "hpid h < nextPid w'" if "(t, h) \<in> set (listeners (elements w' d))" for d t h
    using assms(3) [OF that] assms(1) unfolding well_formed_def assms(2) by blast
  have 2: "q < nextPid w'" if "Resolve q \<in> set (trace w')" for q
    using that assms(1,5) unfolding well_formed_def assms(2,4) by auto
  show ?thesis
    unfolding well_formed_def using 1 2 by blast
qed

lemma wf_log: "well_formed w \<Longrightarrow> \<forall>q. x \<noteq> Resolve q \<Longrightarrow> well_formed (log x w)"
  by (rule wf_step [where xs = "[x]"]) auto

lemma wf_resolve: "well_formed w \<Longrightarrow> p < nextPid w \<Longrightarrow> well_formed (resolve p w)"
  by (rule wf_step [where xs = "[Resolve p]"]) (auto split: if_splits)

lemma wf_reject: "well_formed w \<Longrightarrow> well_formed (reject p w)"
  by (rule wf_step [where xs = "[Reject p]"]) (auto split: if_splits)

lemma wf_setAttribute: "well_formed w \<Longrightarrow> well_formed (setAttribute c n x w)"
  by (rule wf_step [where xs = "[SetAttribute c n x]"]) auto

lemma wf_removeAttribute: "well_formed w \<Longrightarrow> well_formed (removeAttribute c n w)"
  by (rule wf_step [where xs = "[RemoveAttribute c n]"]) auto

lemma wf_restoreAttribute: "well_formed w \<Longrightarrow> well_formed (restoreAttribute c n x w)"
  by (cases x) (simp_all add: restoreAttribute_def wf_setAttribute)

lemma wf_addEventListener:
  "well_formed w \<Longrightarrow> hpid h < nextPid w \<Longrightarrow> well_formed (addEventListener c t h w)"
  by (rule wf_step [where xs = "[AddEventListener c t h]"]) (auto split: if_splits)

lemma wf_removeEventListener: "well_formed w \<Longrightarrow> well_formed (removeEventListener c t h w)"
  by (rule wf_step [where xs = "[RemoveEventListener c t h]"]) (auto split: if_splits)

lemma wf_detach: "well_formed w \<Longrightarrow> well_formed (detach c w)"
  by (rule wf_step [where xs = "[RemoveChild c]"]) auto

lemma wf_attachHandlers:
  "well_formed w \<Longrightarrow> p < nextPid w \<Longrightarrow> well_formed (attachHandlers p c w)"
  by (simp add: attachHandlers_def wf_addEventListener)

lemma wf_run_handler: "well_formed w \<Longrightarrow> hpid h < nextPid w \<Longrightarrow> well_formed (run_handler h w)"
  by (cases h) (simp_all add: wf_resolve wf_removeEventListener)

lemma wf_invoke:
  assumes "well_formed w"
  shows "well_formed (invoke c t w h)"
proof (cases "(t, h) \<in> set (listeners (elements w c))")
  case True
  then have "hpid h < nextPid w"
    using assms unfolding well_formed_def by blast
  then show ?thesis
    using True assms by (simp add: invoke_def wf_run_handler)
next
  case False
  then show ?thesis using assms by (simp add: invoke_def)
qed

lemma wf_foldl_invoke: "well_formed w \<Longrightarrow> well_formed (foldl (invoke c t) w hs)"
  by (induction hs arbitrary: w) (simp_all add: wf_invoke)

lemma wf_dispatchEvent: "well_formed w \<Longrightarrow> well_formed (dispatchEvent c t w)"
  by (simp add: dispatchEvent_def wf_foldl_invoke wf_log)

lemma wf_emit_all: "well_formed w \<Longrightarrow> well_formed (emit_all c ts w)"
  by (induction ts arbitrary: w) (simp_all add: wf_dispatchEvent)

lemma wf_fields:
  assumes "well_formed w" and "trace u = trace w" and "elements u = elements w"
    and "nextPid u = nextPid w"
  shows "well_formed u"
  using assms(1) unfolding well_formed_def assms(2,3,4) .

lemma wf_release: "well_formed w \<Longrightarrow> well_formed (release k w)"
  by (erule wf_fields) (simp_all add: release_def)

lemma wf_actionsForCompletelyDestroy:
  "well_formed w \<Longrightarrow> well_formed (actionsForCompletelyDestroy k w)"
  by (simp add: actionsForCompletelyDestroy_def wf_release wf_log)

lemma wf_registry: "well_formed w \<Longrightarrow> well_formed (w\<lparr>appInstanceMap := m\<rparr>)"
  by (erule wf_fields) simp_all

lemma wf_app_unmount:
  assumes "well_formed w" and "p < nextPid w"
  shows "well_formed (app_unmount k d p w)"
proof -
  define v2 where "v2 =
    (if d then release k (log (AppUnmount k d) w)
     else (log (AppUnmount k d) w)\<lparr>appInstanceMap :=
            map_modify (appInstanceMap (log (AppUnmount k d) w)) k
              (\<lambda>a. a\<lparr>appState := UNMOUNT, keepAliveState := NONE, container := None\<rparr>)\<rparr>)"
  have "well_formed (log (AppUnmount k d) w)"
    using assms(1) by (simp add: wf_log)
  then have v2: "well_formed v2"
    unfolding v2_def by (cases d) (simp_all only: if_True if_False wf_release wf_registry)
  have n2: "nextPid v2 = nextPid w"
    unfolding v2_def by (simp add: release_def)
  have "well_formed (case c of None \<Rightarrow> v2 | Some c' \<Rightarrow> dispatchEvent c' ''unmount'' v2)
        \<and> nextPid (case c of None \<Rightarrow> v2 | Some c' \<Rightarrow> dispatchEvent c' ''unmount'' v2)
          = nextPid w" for c
    using v2 n2 by (cases c) (simp_all add: wf_dispatchEvent)
  then show ?thesis
    unfolding app_unmount_def Let_def v2_def using assms(2) by (intro wf_resolve) simp_all
qed

lemma wf_removeChild: "well_formed w \<Longrightarrow> removeChild E c w = Some u \<Longrightarrow> well_formed u"
  by (auto simp: removeChild_def wf_emit_all wf_detach split: if_splits)

lemma wf_destroyBranch: "well_formed w \<Longrightarrow> well_formed (final (destroyBranch E c w))"
  unfolding destroyBranch_def Let_def
  by (auto split: option.splits
      intro!: wf_restoreAttribute wf_removeAttribute wf_setAttribute
      intro: wf_removeChild)

lemma wf_clearAliveBranch: "well_formed w \<Longrightarrow> well_formed (final (clearAliveBranch E c w))"
  unfolding clearAliveBranch_def Let_def
  by (auto split: option.splits
      intro!: wf_restoreAttribute wf_removeAttribute
      intro: wf_removeChild)

lemma wf_detachBranch: "well_formed w \<Longrightarrow> well_formed (final (detachBranch E c w))"
  unfolding detachBranch_def
  by (auto split: option.splits intro: wf_removeChild)

lemma wf_unmountVisible:
  "well_formed w \<Longrightarrow> p < nextPid w \<Longrightarrow> well_formed (final (unmountVisible E p c options w))"
  unfolding unmountVisible_def Let_def
  by (simp add: wf_destroyBranch wf_clearAliveBranch wf_detachBranch wf_attachHandlers)

lemma nextPid_actionsForCompletelyDestroy [simp]:
  "nextPid (actionsForCompletelyDestroy k w) = nextPid w"
  by (simp add: actionsForCompletelyDestroy_def release_def)

lemma wf_executor:
  "well_formed w \<Longrightarrow> p < nextPid w \<Longrightarrow> well_formed (final (executor E p k n options w))"
  unfolding executor_def
  by (auto split: option.splits
      simp: wf_unmountVisible wf_app_unmount wf_resolve wf_actionsForCompletelyDestroy
        logWarn_def wf_log)

lemma wf_settle: "well_formed (final r) \<Longrightarrow> well_formed (settle p r)"
  by (cases r) (simp_all add: wf_reject)

lemma wf_called: "well_formed w \<Longrightarrow> well_formed (called w n)"
  unfolding well_formed_def by (auto simp: less_Suc_eq)

lemma wf_unmountApp: "well_formed w \<Longrightarrow> well_formed (snd (unmountApp E n options w))"
  unfolding unmountApp_def Let_def called_def [symmetric] snd_conv
  by (intro wf_settle wf_executor wf_called) simp_all

lemma fired_append: "fired c (xs @ ys) = (fired c xs \<or> fired c ys)"
  by (auto simp: fired_def)

lemma fired_Cons:
  "fired c (x # t) = ((\<exists>e. terminal e \<and> x = DispatchEvent c e) \<or> fired c t)"
  by (auto simp: fired_def)

lemma waits_append: "waits c (xs @ ys) = (waits c xs \<and> (fired c xs \<or> waits c ys))"
  by (induction c xs rule: waits.induct) (auto simp: fired_Cons fired_def)

lemma waits_nocall: "\<not> list_ex is_call xs \<Longrightarrow> waits c xs"
  by (induction c xs rule: waits.induct) auto

lemma waits_next_call: "waits c (ys @ Call p n # zs) \<Longrightarrow> fired c ys"
  by (simp add: waits_append)

lemma emitted_since:
  "e \<in> set ts \<Longrightarrow> DispatchEvent c e \<in> set (since v (emit_all c ts v))"
proof (induction ts arbitrary: v)
  case Nil
  then show ?case by simp
next
  case (Cons a ts)
  obtain r where r: "trace (dispatchEvent c a v) = trace v @ DispatchEvent c a # r"
    using trace_dispatchEvent by blast
  have t: "trace (emit_all c ts (dispatchEvent c a v)) =
           trace (dispatchEvent c a v) @ since (dispatchEvent c a v)
                                           (emit_all c ts (dispatchEvent c a v))"
    by (rule trace_emit_all_since)
  have s: "since v (emit_all c (a # ts) v) =
           DispatchEvent c a # r @ since (dispatchEvent c a v)
                                     (emit_all c ts (dispatchEvent c a v))"
    by (rule since_append) (simp add: t r)
  show ?case
  proof (cases "e = a")
    case True
    then show ?thesis unfolding s by simp
  next
    case False
    then have "e \<in> set ts" using Cons.prems by simp
    from Cons.IH [OF this, of "dispatchEvent c a v"] show ?thesis
      unfolding s by simp
  qed
qed

lemma since_mid: "trace u = trace v @ a @ m @ b \<Longrightarrow> x \<in> set m \<Longrightarrow> x \<in> set (since v u)"
  by (simp add: since_def)

lemma visible_emits:
  assumes "mounted_visible E w n c" and "e \<in> set (emitsOnRemove E c)"
  shows "DispatchEvent c e \<in> set (since (called w n) (snd (unmountApp E n options w)))"
proof -
  let ?p = "nextPid w"
  let ?ts = "emitsOnRemove E c"
  let ?w1 = "attachHandlers ?p c (called w n)"
  have at: "attached (elements (called w n) c)"
    using assms(1) by (auto simp: mounted_visible_def split: option.splits)
  have w': "snd (unmountApp E n options w) =
            final (unmountVisible E ?p c options (called w n))"
    unfolding unmountApp_visible [OF assms(1)] called_def [symmetric]
      unmountVisible_attached [OF at] by simp
  have m: "DispatchEvent c e \<in> set (since X (emit_all c ?ts X))" for X
    using assms(2) by (rule emitted_since)
  have "\<exists>a X b. trace (snd (unmountApp E n options w)) =
          trace (called w n) @ a @ since X (emit_all c ?ts X) @ b"
  proof (cases "optDestroy options")
    case True
    show ?thesis
      unfolding w' unmountVisible_attached [OF at]
      by (rule exI [of _ "[AddEventListener c ''unmount'' (UnmountHandler ?p c),
                           AddEventListener c ''afterhidden'' (AfterhiddenHandler ?p c),
                           SetAttribute c ''destroy'' ''true'', RemoveChild c]"],
          rule exI [of _ "detach c (setAttribute c ''destroy'' ''true'' ?w1)"])
        (simp add: True trace_emit_all_since)
  next
    case False
    show ?thesis
    proof (cases "optClearAliveState options \<and> attrs (elements w c) ''keep-alive'' \<noteq> None")
      case True
      show ?thesis
        unfolding w' unmountVisible_attached [OF at]
        by (rule exI [of _ "[AddEventListener c ''unmount'' (UnmountHandler ?p c),
                             AddEventListener c ''afterhidden'' (AfterhiddenHandler ?p c),
                             RemoveAttribute c ''keep-alive'', RemoveChild c]"],
            rule exI [of _ "detach c (removeAttribute c ''keep-alive'' ?w1)"])
          (simp add: True False trace_emit_all_since)
    next
      case nc: False
      show ?thesis
        unfolding w' unmountVisible_attached [OF at]
        by (rule exI [of _ "[AddEventListener c ''unmount'' (UnmountHandler ?p c),
                             AddEventListener c ''afterhidden'' (AfterhiddenHandler ?p c),
                             RemoveChild c]"],
            rule exI [of _ "detach c ?w1"])
          (use nc False in \<open>auto simp: trace_emit_all_since\<close>)
    qed
  qed
  then obtain a X b where "trace (snd (unmountApp E n options w)) =
          trace (called w n) @ a @ since X (emit_all c ?ts X) @ b"
    by blast
  from since_mid [OF this m] show ?thesis .
qed

lemma run_snoc: "run E (sch @ [x]) s = step E (run E sch s) x"
  by (simp add: run_def)

lemma microtask_ready:
  assumes "chain_ready w ch" and "remaining ch = n # ns"
  shows "microtask E (ch, w) =
           (ch\<lparr>remaining := ns, awaiting := Some (nextPid w)\<rparr>,
            snd (unmountApp E n (chainOptions ch) w))"
  using assms unmountApp_fst [of E n "chainOptions ch" w]
  by (auto simp: microtask_def split: prod.splits)

lemma microtask_blocked: "\<not> chain_ready w ch \<Longrightarrow> microtask E (ch, w) = (ch, w)"
  by (simp add: microtask_def)

lemma microtask_cases:
  "microtask E (ch, w) = (ch, w)
   \<or> (\<exists>n ns. microtask E (ch, w) =
               (ch\<lparr>remaining := ns, awaiting := Some (nextPid w)\<rparr>,
                snd (unmountApp E n (chainOptions ch) w)))"
proof (cases "chain_ready w ch")
  case False
  then show ?thesis by (simp add: microtask_blocked)
next
  case True
  show ?thesis
  proof (cases "remaining ch")
    case Nil
    then show ?thesis using True by (simp add: microtask_def)
  next
    case (Cons n ns)
    from microtask_ready [OF True this] show ?thesis by blast
  qed
qed

lemma unmountApp_trace:
  "\<exists>xs. trace (snd (unmountApp E n options w)) = trace (called w n) @ xs
        \<and> \<not> list_ex is_call xs"
  using ext_unmountApp [of w n E options] unfolding ext_def by blast

lemma microtask_trace: "\<exists>xs. trace (snd (microtask E (ch, w))) = trace w @ xs"
proof -
  have "\<exists>xs. trace (snd (unmountApp E n options w)) = trace w @ xs" for n options
    using unmountApp_trace [of E n options w] by auto
  then show ?thesis
    using microtask_cases [of E ch w] by auto
qed

lemma step_chainOptions: "chainOptions (fst (step E s x)) = chainOptions (fst s)"
proof (cases s)
  case (Pair ch w)
  show ?thesis
    using microtask_cases [of E ch w] by (cases x) (auto simp: Pair)
qed

lemma run_chainOptions: "chainOptions (fst (run E sch s)) = chainOptions (fst s)"
  unfolding run_def by (induction sch arbitrary: s) (simp_all add: step_chainOptions)

lemma step_well_formed: "well_formed (snd s) \<Longrightarrow> well_formed (snd (step E s x))"
proof (cases s)
  case (Pair ch w)
  assume "well_formed (snd s)"
  then have w: "well_formed w" by (simp add: Pair)
  show ?thesis
    using microtask_cases [of E ch w] w
    by (cases x) (auto simp: Pair wf_unmountApp wf_dispatchEvent)
qed

lemma run_well_formed: "well_formed (snd s) \<Longrightarrow> well_formed (snd (run E sch s))"
  unfolding run_def by (induction sch arbitrary: s) (simp_all add: step_well_formed)

lemma armed_pending: "armed p c w \<Longrightarrow> promises w p = Some Pending"
  by (simp add: armed_def)

lemma holding_emit:
  assumes "holding c p base (ch, w)"
  shows "holding c p base (ch, dispatchEvent d e w)"
proof -
  obtain t where t: "trace w = base @ t" "waits c t"
    "\<not> fired c t \<Longrightarrow> armed p c w \<and> awaiting ch = Some p"
    using assms unfolding holding_def by auto
  obtain r where r: "trace (dispatchEvent d e w) = trace w @ DispatchEvent d e # r"
    using trace_dispatchEvent by blast
  have "ext w (dispatchEvent d e w)"
    by (intro ext_dispatchEvent ext_refl)
  then have nc: "\<not> list_ex is_call (DispatchEvent d e # r)"
    unfolding ext_def r by auto
  have 1: "trace (dispatchEvent d e w) = base @ (t @ DispatchEvent d e # r)"
    by (simp add: r t(1))
  have 2: "waits c (t @ DispatchEvent d e # r)"
    unfolding waits_append using t(2) waits_nocall [OF nc] by simp
  have 3: "armed p c (dispatchEvent d e w) \<and> awaiting ch = Some p"
    if "\<not> fired c (t @ DispatchEvent d e # r)"
  proof -
    have nf: "\<not> fired c t" and ne: "\<not> (d = c \<and> terminal e)"
      using that by (auto simp: fired_append fired_Cons)
    have "armed p c (dispatchEvent d e w)"
      using armed_dispatchEvent [of p c w d e] t(3) [OF nf] ne by presburger
    then show ?thesis using t(3) [OF nf] by simp
  qed
  show ?thesis
    unfolding holding_def using 1 2 3 by (intro exI [of _ "t @ DispatchEvent d e # r"]) simp
qed

lemma holding_microtask:
  assumes "holding c p base (ch, w)"
  shows "holding c p base (microtask E (ch, w))"
proof -
  obtain t where t: "trace w = base @ t" "waits c t"
    "\<not> fired c t \<Longrightarrow> armed p c w \<and> awaiting ch = Some p"
    using assms unfolding holding_def by auto
  show ?thesis
  proof (cases "fired c t")
    case True
    obtain xs where xs: "trace (snd (microtask E (ch, w))) = trace w @ xs"
      using microtask_trace by blast
    have 1: "trace (snd (microtask E (ch, w))) = base @ (t @ xs)"
      by (simp add: xs t(1))
    have 2: "waits c (t @ xs)" "fired c (t @ xs)"
      using True t(2) by (simp_all add: waits_append fired_append)
    show ?thesis
      unfolding holding_def using 1 2 by blast
  next
    case False
    then have "armed p c w" "awaiting ch = Some p"
      using t(3) by blast+
    then have "promises w p = Some Pending" "awaiting ch = Some p"
      by (simp_all add: armed_pending)
    then have "\<not> chain_ready w ch"
      by (simp add: chain_ready_def)
    then show ?thesis
      using assms by (simp add: microtask_blocked)
  qed
qed

lemma holding_step: "holding c p base s \<Longrightarrow> holding c p base (step E s x)"
  by (cases s; cases x) (simp_all add: holding_microtask holding_emit)

lemma holding_run: "holding c p base s \<Longrightarrow> holding c p base (run E sch s)"
  unfolding run_def by (induction sch arbitrary: s) (simp_all add: holding_step)

lemma holding_start:
  assumes "well_formed w" and "chain_ready w ch" and "remaining ch = n # ns"
    and "mounted_visible E w n c"
  shows "holding c (nextPid w) (trace (called w n)) (microtask E (ch, w))"
proof -
  let ?r = "unmountApp E n (chainOptions ch) w"
  have m: "microtask E (ch, w) =
             (ch\<lparr>remaining := ns, awaiting := Some (nextPid w)\<rparr>, snd ?r)"
    by (rule microtask_ready [OF assms(2,3)])
  obtain xs where xs: "trace (snd ?r) = trace (called w n) @ xs" "\<not> list_ex is_call xs"
    using unmountApp_trace by blast
  have s: "since (called w n) (snd ?r) = xs"
    using xs(1) by (rule since_append)
  have st: "(if list_ex terminal (emitsOnRemove E c)
             then settled (fst ?r) (snd ?r) else armed (fst ?r) c (snd ?r))"
    by (rule visible_stage(2) [OF assms(4) well_formed_fresh [OF assms(1)] surjective_pairing])
  have a: "armed (nextPid w) c (snd ?r)" if nf: "\<not> fired c xs"
  proof (cases "list_ex terminal (emitsOnRemove E c)")
    case True
    then obtain e where e: "e \<in> set (emitsOnRemove E c)" "terminal e"
      by (auto simp: list_ex_iff)
    have "DispatchEvent c e \<in> set xs"
      using visible_emits [OF assms(4) e(1), of "chainOptions ch"] unfolding s .
    then show ?thesis
      using nf e(2) unfolding fired_def by blast
  next
    case False
    then show ?thesis
      using st by (simp add: unmountApp_fst)
  qed
  show ?thesis
    unfolding m holding_def
    using xs(1) waits_nocall [OF xs(2), of c] a
    by (intro exI [of _ xs]) simp
qed

text \<open>
  C3 (amended): \<open>unmountAllApps\<close> takes the names of the Registry in order, one at a
  time. Under every interleaving of its own steps with events of the page: the calls
  of \<open>unmountApp\<close> made so far, followed by the names still to come, are the Registry's
  name list; between the start of one call and the start of any later one the
  \<open>resolve\<close> of the earlier call's promise has run; as soon as the promise it awaits is
  fulfilled, the next step of the chain calls \<open>unmountApp\<close> for the next name; and when
  the application being unmounted is mounted and visible, no later call starts before
  an \<open>unmount\<close> or \<open>afterhidden\<close> event has been dispatched on its container.
\<close>

theorem unmountAllApps_sequential:
  assumes "run E sch (unmountAllApps options w, w) = (ch', w')"
  shows "calls (since w w') @ remaining ch' = getAllApps (appInstanceMap w)
       \<and> (\<forall>xs p n ys p' n' zs.
            since w w' = xs @ Call p n # ys @ Call p' n' # zs \<longrightarrow> Resolve p \<in> set ys)
       \<and> (chain_ready w' ch' \<and> remaining ch' = nm # rest \<longrightarrow>
            run E (sch @ [Microtask]) (unmountAllApps options w, w) =
              (ch'\<lparr>remaining := rest, awaiting := Some (nextPid w')\<rparr>,
               snd (unmountApp E nm options w')))
       \<and> (well_formed w \<and> chain_ready w' ch' \<and> remaining ch' = nm # rest
          \<and> mounted_visible E w' nm c
          \<and> run E sch2 (step E (ch', w') Microtask) = (chl, wl)
          \<and> since w' wl = Call q nm # ys2 @ Call q' nm' # zs2 \<longrightarrow>
            (\<exists>e. terminal e \<and> DispatchEvent c e \<in> set ys2))"
proof -
  have "Inv (length (trace w)) (getAllApps (appInstanceMap w)) (ch', w')"
    using Inv_run [OF Inv_start [of w options], of E sch] assms by simp
  then have g: "gated None (since w w')"
    and c: "calls (since w w') @ remaining ch' = getAllApps (appInstanceMap w)"
    unfolding Inv_def K_def since_def by simp_all
  have 2: "\<forall>xs p n ys p' n' zs.
            since w w' = xs @ Call p n # ys @ Call p' n' # zs \<longrightarrow> Resolve p \<in> set ys"
    using g gated_between by metis
  have o: "chainOptions ch' = options"
    using run_chainOptions [of E sch "(unmountAllApps options w, w)"] assms
    by (simp add: unmountAllApps_def)
  have 3: "run E (sch @ [Microtask]) (unmountAllApps options w, w) =
              (ch'\<lparr>remaining := rest, awaiting := Some (nextPid w')\<rparr>,
               snd (unmountApp E nm options w'))"
    if "chain_ready w' ch'" "remaining ch' = nm # rest"
    unfolding run_snoc assms using microtask_ready [OF that, of E] by (simp add: o)
  have 4: "\<exists>e. terminal e \<and> DispatchEvent c e \<in> set ys2"
    if wf: "well_formed w" and rd: "chain_ready w' ch'" and rm: "remaining ch' = nm # rest"
      and mv: "mounted_visible E w' nm c"
      and r2: "run E sch2 (step E (ch', w') Microtask) = (chl, wl)"
      and sp: "since w' wl = Call q nm # ys2 @ Call q' nm' # zs2"
  proof -
    have "well_formed w'"
      using run_well_formed [of "(unmountAllApps options w, w)" E sch] wf assms by simp
    from holding_start [OF this rd rm mv]
    have "holding c (nextPid w') (trace (called w' nm)) (step E (ch', w') Microtask)"
      by simp
    from holding_run [OF this, of E sch2]
    obtain t where t: "trace wl = trace (called w' nm) @ t" "waits c t"
      unfolding r2 holding_def by auto
    have "since w' wl = Call (nextPid w') nm # t"
      by (rule since_append) (simp add: t(1))
    then have "t = ys2 @ Call q' nm' # zs2"
      using sp by simp
    then have "fired c ys2"
      using t(2) waits_next_call by blast
    then show ?thesis
      unfolding fired_def .
  qed
  show ?thesis
    using c 2 3 4 by blast
qed

theorem unmountAllApps_sequential_witness:
  "calls (since w0 (snd (run E0 sched0 (unmountAllApps None w0, w0))))
     @ remaining (fst (run E0 sched0 (unmountAllApps None w0, w0)))
     = [''shown'', ''hidden'', ''gone'', ''pre'']
   \<and> remaining (fst (run E0 sched0 (unmountAllApps None w0, w0))) = []
   \<and> calls (since w0 (snd (run E0 [Microtask, Microtask, Microtask]
                             (unmountAllApps None w0, w0)))) = [''shown'']
   \<and> run E0 ([] @ [Microtask]) (unmountAllApps None w0, w0) =
       ((unmountAllApps None w0)
          \<lparr>remaining := [''hidden'', ''gone'', ''pre''], awaiting := Some (nextPid w0)\<rparr>,
        snd (unmountApp E0 ''shown'' None w0))
   \<and> (\<exists>e. terminal e \<and> DispatchEvent 0 e \<in> set ys0)"
proof -
  have g: "getAllApps (appInstanceMap w0) = [''shown'', ''hidden'', ''gone'', ''pre'']"
    by code_simp
  have r: "remaining (fst (run E0 sched0 (unmountAllApps None w0, w0))) = []"
    by code_simp
  have s: "calls (since w0 (snd (run E0 [Microtask, Microtask, Microtask]
                                  (unmountAllApps None w0, w0)))) = [''shown'']"
    by code_simp
  have r0: "run E0 [] (unmountAllApps None w0, w0) = (unmountAllApps None w0, w0)"
    by (simp add: run_def)
  have wf: "well_formed w0"
    by (simp add: well_formed_def w0_def el0_def)
  have rd: "chain_ready w0 (unmountAllApps None w0)"
    by (simp add: chain_ready_def unmountAllApps_def)
  have rm: "remaining (unmountAllApps None w0) = ''shown'' # [''hidden'', ''gone'', ''pre'']"
    by (simp add: unmountAllApps_def g)
  have mv: "mounted_visible E0 w0 ''shown'' 0"
    by (simp add: demo_simps)
  have sp: "since w0 (snd (run E0 [Emit 0 ''unmount'', Microtask]
                             (step E0 (unmountAllApps None w0, w0) Microtask))) =
            Call 0 ''shown'' # ys0 @ Call 1 ''hidden'' # [Resolve 1]"
    by code_simp
  show ?thesis
    using unmountAllApps_sequential
            [where E = E0 and sch = sched0 and options = None and w = w0,
             OF surjective_pairing]
      unmountAllApps_sequential
            [OF r0, where nm = "''shown''" and rest = "[''hidden'', ''gone'', ''pre'']"
               and c = 0 and ?sch2.0 = "[Emit 0 ''unmount'', Microtask]"
               and chl = "fst (run E0 [Emit 0 ''unmount'', Microtask]
                               (step E0 (unmountAllApps None w0, w0) Microtask))"
               and wl = "snd (run E0 [Emit 0 ''unmount'', Microtask]
                               (step E0 (unmountAllApps None w0, w0) Microtask))"
               and q = 0 and ?ys2.0 = ys0 and q' = 1 and nm' = "''hidden''"
               and ?zs2.0 = "[Resolve 1]"]
      g r s wf rd rm mv sp
    by simp
qed

text \<open>
  The unmount of a prefetched application resolves without any event: the next
  application's unmount starts although no \<open>unmount\<close> or \<open>afterhidden\<close> event of the
  first one has fired.
\<close>

theorem unmountAllApps_next_without_event_counterexample:
  "since w3 (snd (run E0 [Microtask, Microtask] (unmountAllApps None w3, w3))) =
     [Call 0 ''pre'', Resolve 0, Call 1 ''shown'',
      AddEventListener 0 ''unmount'' (UnmountHandler 1 0),
      AddEventListener 0 ''afterhidden'' (AfterhiddenHandler 1 0),
      RemoveChild 0]"
  by code_simp

section \<open>Starting MicroApp\<close>

text \<open>
  C8 (amended): \<open>start\<close> ends after exactly one log entry, with no global
  initialisation and no element defined, in each of three cases: the environment is
  unsupported, the given tag name does not match the pattern, or the element is already
  defined. In every other case it initialises the global environment and defines the
  element.
\<close>

theorem start_outcomes:
  "(\<not> supported b \<longrightarrow>
      start options b =
        b\<lparr>console := console b
              @ [LogError ''micro-app is not supported in this environment'']\<rparr>)
   \<and> (supported b \<and> \<not> validTag options \<longrightarrow>
      start options b =
        b\<lparr>console := console b
              @ [LogError (chosenTag options b @ '' is invalid tagName'')]\<rparr>)
   \<and> (isBrowser b \<and> customElements b = Some defined \<and> validTag options
        \<and> chosenTag options b \<in> set defined \<longrightarrow>
      customElements (start options b) = Some defined
      \<and> console (start options b) =
          console b @ [LogWarn (''element '' @ chosenTag options b @ '' is already defined'')])
   \<and> (isBrowser b \<and> customElements b = Some defined \<and> validTag options
        \<and> chosenTag options b \<notin> set defined \<longrightarrow>
      customElements (start options b) = Some (defined @ [chosenTag options b])
      \<and> console (start options b) =
          console b @ [InitGlobalEnv] @ prefetches options
          @ [DefineElement (chosenTag options b)])"
  by (auto simp: start_def supported_def validTag_def chosenTag_def prefetches_def
      logError_def logWarning_def initGlobalEnv_def defineElement_def initOptions_def
      split: option.splits)

theorem start_outcomes_witness:
  "console (start None (b0\<lparr>isBrowser := False\<rparr>)) =
     [LogError ''micro-app is not supported in this environment'']
   \<and> start (Some (noOptions\<lparr>tagName := Some ''my-app''\<rparr>)) b0 =
       b0\<lparr>console := [LogError ''my-app is invalid tagName'']\<rparr>
   \<and> console (start None (b0\<lparr>customElements := Some [''micro-app'']\<rparr>)) =
       [LogWarn ''element micro-app is already defined'']
   \<and> customElements (start (Some (noOptions\<lparr>tagName := Some ''micro-app-x''\<rparr>)) b0) =
       Some [''micro-app-x'']
   \<and> console (start (Some (noOptions\<lparr>tagName := Some ''micro-app-x''\<rparr>)) b0) =
       [InitGlobalEnv, DefineElement ''micro-app-x'']"
  using start_outcomes [of "b0\<lparr>isBrowser := False\<rparr>" None]
    start_outcomes [of b0 "Some (noOptions\<lparr>tagName := Some ''my-app''\<rparr>)"]
    start_outcomes [of "b0\<lparr>customElements := Some [''micro-app'']\<rparr>" None
                       "[''micro-app'']"]
    start_outcomes [of b0 "Some (noOptions\<lparr>tagName := Some ''micro-app-x''\<rparr>)" "[]"]
  by (simp add: supported_def validTag_def chosenTag_def truthyTagName_def tagNamePattern_def
      prefetches_def b0_def noOptions_def)

text \<open>
  In a supported environment an invalid tag name ends \<open>start\<close> just as an unsupported
  environment does: one error is logged and nothing else happens.
\<close>

theorem start_aborts_in_supported_environment_counterexample:
  "isBrowser b0 \<and> customElements b0 = Some []
   \<and> start (Some (noOptions\<lparr>tagName := Some ''my-app''\<rparr>)) b0 =
       b0\<lparr>console := [LogError ''my-app is invalid tagName'']\<rparr>"
  by (simp add: start_def b0_def noOptions_def truthyTagName_def tagNamePattern_def
      logError_def)

end
